theory Spec2Isabelle
  imports Complex_Main "HOL-Library.Log_Nat"
begin

section \<open>The colour utilities of octocat: \<^verbatim>\<open>octocat/exts/utils/colour.py\<close>\<close>

text \<open>
  The cog \<^verbatim>\<open>Colour\<close> converts a colour given as RGB, HSV, HSL, CMYK, a hex code or
  a name into the other representations. Python integers are modelled as \<open>int\<close>,
  strings as \<open>string\<close>, tuples as products, and every exception the code can raise as a
  value of \<open>py_error\<close> on the left of a sum.
\<close>

datatype py_error = BadArgument | IndexError | ValueError | KeyError | ZeroDivisionError

subsection \<open>Python string primitives used by the cog\<close>

text \<open>\<^verbatim>\<open>hex(n)\<close>: the lowercase hexadecimal digits of \<open>n\<close> after \<^verbatim>\<open>0x\<close>, with a
  leading \<^verbatim>\<open>-\<close> for a negative number.\<close>

definition hex_digit :: "nat \<Rightarrow> char" where
  "hex_digit d = ''0123456789abcdef'' ! d"

fun hex_nat :: "nat \<Rightarrow> string" where
  "hex_nat n = (if n < 16 then [hex_digit n] else hex_nat (n div 16) @ [hex_digit (n mod 16)])"

declare hex_nat.simps [simp del]

definition py_hex :: "int \<Rightarrow> string" where
  "py_hex n = (if n < 0 then ''-0x'' @ hex_nat (nat (- n)) else ''0x'' @ hex_nat (nat n))"

text \<open>\<^verbatim>\<open>s.zfill(w)\<close>: zeros on the left up to width \<open>w\<close>, after a leading sign.\<close>

definition zfill :: "nat \<Rightarrow> string \<Rightarrow> string" where
  "zfill w s =
     (if w \<le> length s then s
      else case s of
             c # cs \<Rightarrow>
               if c = CHR ''+'' \<or> c = CHR ''-''
               then c # replicate (w - length s) CHR ''0'' @ cs
               else replicate (w - length s) CHR ''0'' @ s
           | [] \<Rightarrow> replicate w CHR ''0'')"

text \<open>\<^verbatim>\<open>s.upper()\<close> on ASCII text: the letters a to z move to A to Z.\<close>

definition upper_char :: "char \<Rightarrow> char" where
  "upper_char c =
     (let n = (of_char c :: nat) in if 97 \<le> n \<and> n \<le> 122 then char_of (n - 32) else c)"

definition upper :: "string \<Rightarrow> string" where
  "upper s = map upper_char s"

subsection \<open>\<^verbatim>\<open>_rgb_to_hex\<close>\<close>

text \<open>
  \<^verbatim>\<open>hex_ = "".join([hex(val)[2:].zfill(2) for val in rgb])\<close>
  \<^verbatim>\<open>hex_code = f"#{hex_}".upper()\<close>
\<close>

definition hex_pair :: "int \<Rightarrow> string" where
  "hex_pair val = zfill 2 (drop 2 (py_hex val))"

definition rgb_to_hex :: "int \<times> int \<times> int \<Rightarrow> string" where
  "rgb_to_hex rgb =
     (case rgb of (r, g, b) \<Rightarrow> upper (CHR ''#'' # concat (map hex_pair [r, g, b])))"

text \<open>What the specification asks of one channel: exactly two uppercase hexadecimal
  digits, the high one first, zero-padded.\<close>

definition two_upper_digits :: "int \<Rightarrow> string" where
  "two_upper_digits v =
     [''0123456789ABCDEF'' ! nat (v div 16), ''0123456789ABCDEF'' ! nat (v mod 16)]"

subsection \<open>The \<^verbatim>\<open>hex\<close> command\<close>

text \<open>\<^verbatim>\<open>string.hexdigits\<close>, and \<^verbatim>\<open>s.lower()\<close> on ASCII text.\<close>

definition hexdigits :: string where
  "hexdigits = ''0123456789abcdefABCDEF''"

definition lower_char :: "char \<Rightarrow> char" where
  "lower_char c =
     (let n = (of_char c :: nat) in if 65 \<le> n \<and> n \<le> 90 then char_of (n + 32) else c)"

definition lower :: "string \<Rightarrow> string" where
  "lower s = map lower_char s"

text \<open>
  \<^verbatim>\<open>PIL.ImageColor.getrgb\<close> is not part of the repository. Its behaviour on a
  specifier that starts with \<^verbatim>\<open>#\<close> is transcribed from Pillow: the specifier is
  lower-cased and matched in turn against \<^verbatim>\<open>#[a-f0-9]{n}$\<close> for n = 3, 4, 6, 8
  (\<^verbatim>\<open>$\<close> also matches before one final newline); the short forms double each digit,
  the 4 and 8 digit forms return a fourth (alpha) component, and anything else raises
  \<^verbatim>\<open>ValueError\<close>. The cog only calls it on a string that starts with \<^verbatim>\<open>#\<close>.
\<close>

datatype pil_colour = RGB int int int | RGBA int int int int

definition lower_hex :: "char \<Rightarrow> bool" where
  "lower_hex c = (c \<in> set ''abcdef0123456789'')"

definition re_match_hex :: "nat \<Rightarrow> string \<Rightarrow> bool" where
  "re_match_hex n color =
     (case color of
        [] \<Rightarrow> False
      | h # t \<Rightarrow> h = CHR ''#'' \<and> length (take n t) = n \<and> list_all lower_hex (take n t)
                 \<and> (drop n t = [] \<or> drop n t = [CHR 0x0A]))"

text \<open>\<^verbatim>\<open>int(s, 16)\<close> on a string of digits from \<^verbatim>\<open>[a-f0-9]\<close>.\<close>

definition hex_value :: "char \<Rightarrow> int" where
  "hex_value c = int (length (takeWhile (\<lambda>d. d \<noteq> c) ''0123456789abcdef''))"

definition int16 :: "string \<Rightarrow> int" where
  "int16 s = foldl (\<lambda>a c. 16 * a + hex_value c) 0 s"

definition getrgb_hash :: "string \<Rightarrow> py_error + pil_colour" where
  "getrgb_hash c =
     (let color = lower c in
      if re_match_hex 3 color then
        Inr (RGB (int16 (replicate 2 (color ! 1))) (int16 (replicate 2 (color ! 2)))
                 (int16 (replicate 2 (color ! 3))))
      else if re_match_hex 4 color then
        Inr (RGBA (int16 (replicate 2 (color ! 1))) (int16 (replicate 2 (color ! 2)))
                  (int16 (replicate 2 (color ! 3))) (int16 (replicate 2 (color ! 4))))
      else if re_match_hex 6 color then
        Inr (RGB (int16 (take 2 (drop 1 color))) (int16 (take 2 (drop 3 color)))
                 (int16 (take 2 (drop 5 color))))
      else if re_match_hex 8 color then
        Inr (RGBA (int16 (take 2 (drop 1 color))) (int16 (take 2 (drop 3 color)))
                  (int16 (take 2 (drop 5 color))) (int16 (take 2 (drop 7 color))))
      else Inl ValueError)"

text \<open>
  The command: \<^verbatim>\<open>hex_code[0]\<close> raises \<^verbatim>\<open>IndexError\<close> on the empty string; a
  missing \<^verbatim>\<open>#\<close> is prepended; the length and the characters after the first are
  checked; the parsed tuple loses its alpha component. The result is the RGB triple
  handed to \<^verbatim>\<open>send_colour_response\<close>.
\<close>

definition hex_cmd :: "string \<Rightarrow> py_error + int \<times> int \<times> int" where
  "hex_cmd hex_code0 =
     (case hex_code0 of
        [] \<Rightarrow> Inl IndexError
      | c # _ \<Rightarrow>
          let hex_code = (if c \<noteq> CHR ''#'' then CHR ''#'' # hex_code0 else hex_code0) in
          if length hex_code \<notin> {4, 5, 7, 9} \<or> (\<exists>digit \<in> set (drop 1 hex_code). digit \<notin> set hexdigits)
          then Inl BadArgument
          else (case getrgb_hash hex_code of
                  Inl e \<Rightarrow> Inl e
                | Inr (RGBA r g b a) \<Rightarrow> Inr (r, g, b)
                | Inr (RGB r g b) \<Rightarrow> Inr (r, g, b)))"

text \<open>
  The specification's reading of a hex input: 3, 4, 6 or 8 hexadecimal digits after an
  optional \<^verbatim>\<open>#\<close>; a 3 or 4 digit body is expanded by doubling each digit; the first
  three pairs are the channels and a fourth pair (alpha) is dropped.
\<close>

definition hex_body :: "string \<Rightarrow> string" where
  "hex_body s = (case s of [] \<Rightarrow> [] | c # cs \<Rightarrow> if c = CHR ''#'' then cs else s)"

definition hex_form :: "string \<Rightarrow> bool" where
  "hex_form s = (length (hex_body s) \<in> {3, 4, 6, 8} \<and> (\<forall>c \<in> set (hex_body s). c \<in> set hexdigits))"

definition hex_channels :: "string \<Rightarrow> int \<times> int \<times> int" where
  "hex_channels s =
     (let b = lower (hex_body s);
          e = (if length b \<in> {3, 4} then concat (map (\<lambda>c. [c, c]) b) else b)
      in (int16 (take 2 e), int16 (take 2 (drop 2 e)), int16 (take 2 (drop 4 e))))"

subsection \<open>Fuzzy lookups in the palette\<close>










subsection \<open>Python floats\<close>

text \<open>
  A Python \<^verbatim>\<open>float\<close> is an IEEE 754 binary64 number. The finite ones are rationals, and
  every arithmetic operation returns the exact result rounded to the nearest number with a
  53-bit significand, ties to the even significand: \<open>fl\<close>. The exponent range is not
  modelled (no overflow to infinity, no subnormal numbers): the magnitudes that occur in the
  colour conversions are either 0 or lie between \<open>2^-60\<close> and \<open>2^15\<close>.
\<close>

definition pow2 :: "int \<Rightarrow> rat" where
  "pow2 e = (if 0 \<le> e then 2 ^ nat e else 1 / 2 ^ nat (- e))"

text \<open>\<open>ilog2 x\<close> is the exponent \<open>e\<close> with \<open>2^e \<le> x < 2^(e+1)\<close>, for positive \<open>x\<close>.\<close>

definition ilog2 :: "rat \<Rightarrow> int" where
  "ilog2 x =
     (case quotient_of x of (a, b) \<Rightarrow>
        let e = bitlen a - bitlen b in if pow2 e \<le> x then e else e - 1)"

definition round_half_even :: "rat \<Rightarrow> int" where
  "round_half_even x =
     (let f = \<lfloor>x\<rfloor>; d = x - of_int f
      in if d < 1 / 2 then f else if 1 / 2 < d then f + 1 else if even f then f else f + 1)"

definition fl :: "rat \<Rightarrow> rat" where
  "fl x =
     (if x = 0 then 0
      else let u = pow2 (ilog2 \<bar>x\<bar> - 52) in of_int (round_half_even (x / u)) * u)"

definition fadd :: "rat \<Rightarrow> rat \<Rightarrow> rat" where "fadd a b = fl (a + b)"
definition fsub :: "rat \<Rightarrow> rat \<Rightarrow> rat" where "fsub a b = fl (a - b)"
definition fmul :: "rat \<Rightarrow> rat \<Rightarrow> rat" where "fmul a b = fl (a * b)"

text \<open>Division, for a divisor that the caller has checked not to be zero.\<close>

definition fdiv :: "rat \<Rightarrow> rat \<Rightarrow> rat" where "fdiv a b = fl (a / b)"

text \<open>\<^verbatim>\<open>round(x)\<close> (to the nearest integer, ties to even), \<^verbatim>\<open>int(x)\<close> (towards
  zero) and \<^verbatim>\<open>x % 1.0\<close> (\<^verbatim>\<open>fmod\<close> is exact; a negative remainder has 1.0 added, which
  rounds).\<close>

definition py_round :: "rat \<Rightarrow> int" where
  "py_round x = round_half_even x"

definition py_int :: "rat \<Rightarrow> int" where
  "py_int x = (if 0 \<le> x then \<lfloor>x\<rfloor> else - \<lfloor>- x\<rfloor>)"

definition py_mod1 :: "rat \<Rightarrow> rat" where
  "py_mod1 x = (let m = x - of_int (py_int x) in if m < 0 then fadd m 1 else m)"

subsection \<open>The standard library's \<^verbatim>\<open>colorsys\<close>\<close>

text \<open>
  \<^verbatim>\<open>colorsys\<close> is not part of the repository; the four functions are transcribed from
  CPython's \<^verbatim>\<open>Lib/colorsys.py\<close>, operation by operation. A division by a float zero
  raises \<^verbatim>\<open>ZeroDivisionError\<close>.
\<close>

definition hue_of :: "rat \<Rightarrow> rat \<Rightarrow> rat \<Rightarrow> rat \<Rightarrow> rat \<Rightarrow> rat" where
  "hue_of r g b maxc rangec =
     (let rc = fdiv (fsub maxc r) rangec;
          gc = fdiv (fsub maxc g) rangec;
          bc = fdiv (fsub maxc b) rangec;
          h = (if r = maxc then fsub bc gc
               else if g = maxc then fsub (fadd 2 rc) bc
               else fsub (fadd 4 gc) rc)
      in py_mod1 (fdiv h 6))"

definition colorsys_rgb_to_hsv :: "rat \<Rightarrow> rat \<Rightarrow> rat \<Rightarrow> py_error + rat \<times> rat \<times> rat" where
  "colorsys_rgb_to_hsv r g b =
     (let maxc = max r (max g b);
          minc = min r (min g b);
          rangec = fsub maxc minc;
          v = maxc
      in if minc = maxc then Inr (0, 0, v)
         else if maxc = 0 \<or> rangec = 0 then Inl ZeroDivisionError
         else Inr (hue_of r g b maxc rangec, fdiv rangec maxc, v))"

text \<open>
  \<^verbatim>\<open>rgb_to_hls\<close> exists in two forms. For a lightness above one half, CPython 3.10.0
  to 3.11.4 divide by \<^verbatim>\<open>2.0-sumc\<close>; the earlier versions, and the later ones since
  gh-106498, divide by \<^verbatim>\<open>2.0-maxc-minc\<close>. The first argument tells which form the
  interpreter has (\<open>True\<close> for \<^verbatim>\<open>2.0-maxc-minc\<close>); the properties below are
  proved for both.
\<close>

definition colorsys_rgb_to_hls ::
  "bool \<Rightarrow> rat \<Rightarrow> rat \<Rightarrow> rat \<Rightarrow> py_error + rat \<times> rat \<times> rat" where
  "colorsys_rgb_to_hls gh106498 r g b =
     (let maxc = max r (max g b);
          minc = min r (min g b);
          sumc = fadd maxc minc;
          rangec = fsub maxc minc;
          l = fdiv sumc 2
      in if minc = maxc then Inr (0, l, 0)
         else
           let d = (if l \<le> 1 / 2 then sumc
                    else if gh106498 then fsub (fsub 2 maxc) minc
                    else fsub 2 sumc)
           in if d = 0 \<or> rangec = 0 then Inl ZeroDivisionError
              else Inr (hue_of r g b maxc rangec, l, fdiv rangec d))"

definition colorsys_hsv_to_rgb :: "rat \<Rightarrow> rat \<Rightarrow> rat \<Rightarrow> rat \<times> rat \<times> rat" where
  "colorsys_hsv_to_rgb h s v =
     (if s = 0 then (v, v, v)
      else
        let i = py_int (fmul h 6);
            f = fsub (fmul h 6) (of_int i);
            p = fmul v (fsub 1 s);
            q = fmul v (fsub 1 (fmul s f));
            t = fmul v (fsub 1 (fmul s (fsub 1 f)));
            i = i mod 6
        in if i = 0 then (v, t, p)
           else if i = 1 then (q, v, p)
           else if i = 2 then (p, v, t)
           else if i = 3 then (p, q, v)
           else if i = 4 then (t, p, v)
           else (v, p, q))"

definition ONE_THIRD :: rat where "ONE_THIRD = fdiv 1 3"
definition ONE_SIXTH :: rat where "ONE_SIXTH = fdiv 1 6"
definition TWO_THIRD :: rat where "TWO_THIRD = fdiv 2 3"

definition colorsys_v :: "rat \<Rightarrow> rat \<Rightarrow> rat \<Rightarrow> rat" where
  "colorsys_v m1 m2 hue0 =
     (let hue = py_mod1 hue0
      in if hue < ONE_SIXTH then fadd m1 (fmul (fmul (fsub m2 m1) hue) 6)
         else if hue < 1 / 2 then m2
         else if hue < TWO_THIRD then fadd m1 (fmul (fmul (fsub m2 m1) (fsub TWO_THIRD hue)) 6)
         else m1)"

definition colorsys_hls_to_rgb :: "rat \<Rightarrow> rat \<Rightarrow> rat \<Rightarrow> rat \<times> rat \<times> rat" where
  "colorsys_hls_to_rgb h l s =
     (if s = 0 then (l, l, l)
      else
        let m2 = (if l \<le> 1 / 2 then fmul l (fadd 1 s) else fsub (fadd l s) (fmul l s));
            m1 = fsub (fmul 2 l) m2
        in (colorsys_v m1 m2 (fadd h ONE_THIRD), colorsys_v m1 m2 h,
            colorsys_v m1 m2 (fsub h ONE_THIRD)))"

subsection \<open>Pillow's \<^verbatim>\<open>hsv(...)\<close> and \<^verbatim>\<open>hsl(...)\<close> specifiers\<close>

text \<open>
  \<^verbatim>\<open>ImageColor.getrgb\<close> on \<^verbatim>\<open>f"hsv({hue}, {saturation}%, {value}%)"\<close> with
  non-negative integers: the three numbers are read back as floats, scaled by 360 and 100, sent
  through \<^verbatim>\<open>colorsys\<close>, and each channel is \<^verbatim>\<open>int(x * 255 + 0.5)\<close>. In the
  \<^verbatim>\<open>hsl\<close> form the lightness is the third number.
\<close>

definition to_channel :: "rat \<Rightarrow> int" where
  "to_channel x = py_int (fadd (fmul x 255) (1 / 2))"

definition getrgb_hsv :: "int \<Rightarrow> int \<Rightarrow> int \<Rightarrow> int \<times> int \<times> int" where
  "getrgb_hsv h s v =
     (case colorsys_hsv_to_rgb (fdiv (fl (of_int h)) 360) (fdiv (fl (of_int s)) 100)
             (fdiv (fl (of_int v)) 100) of
        (r, g, b) \<Rightarrow> (to_channel r, to_channel g, to_channel b))"

definition getrgb_hsl :: "int \<Rightarrow> int \<Rightarrow> int \<Rightarrow> int \<times> int \<times> int" where
  "getrgb_hsl h s l =
     (case colorsys_hls_to_rgb (fdiv (fl (of_int h)) 360) (fdiv (fl (of_int l)) 100)
             (fdiv (fl (of_int s)) 100) of
        (r, g, b) \<Rightarrow> (to_channel r, to_channel g, to_channel b))"

subsection \<open>The typed commands\<close>

text \<open>\<^verbatim>\<open>c not in range(n)\<close> for an integer \<open>c\<close>.\<close>

definition in_range :: "int \<Rightarrow> int \<Rightarrow> bool" where
  "in_range n c = (0 \<le> c \<and> c < n)"

definition rgb_cmd :: "int \<Rightarrow> int \<Rightarrow> int \<Rightarrow> py_error + int \<times> int \<times> int" where
  "rgb_cmd red green blue =
     (if \<exists>c \<in> set [red, green, blue]. \<not> in_range 256 c then Inl BadArgument
      else Inr (red, green, blue))"

definition hsv_cmd :: "int \<Rightarrow> int \<Rightarrow> int \<Rightarrow> py_error + int \<times> int \<times> int" where
  "hsv_cmd hue saturation val =
     (if \<not> in_range 361 hue \<or> (\<exists>c \<in> set [saturation, val]. \<not> in_range 101 c)
      then Inl BadArgument
      else Inr (getrgb_hsv hue saturation val))"

definition hsl_cmd :: "int \<Rightarrow> int \<Rightarrow> int \<Rightarrow> py_error + int \<times> int \<times> int" where
  "hsl_cmd hue saturation lightness =
     (if \<not> in_range 361 hue \<or> (\<exists>c \<in> set [saturation, lightness]. \<not> in_range 101 c)
      then Inl BadArgument
      else Inr (getrgb_hsl hue saturation lightness))"

text \<open>\<^verbatim>\<open>round(255 * (1 - (cyan / 100)) * (1 - (key / 100)))\<close>: the only divisions are by
  the constant 100.\<close>

definition cmyk_channel :: "int \<Rightarrow> int \<Rightarrow> int" where
  "cmyk_channel x key =
     py_round (fmul (fmul 255 (fsub 1 (fdiv (of_int x) 100))) (fsub 1 (fdiv (of_int key) 100)))"

definition cmyk_cmd :: "int \<Rightarrow> int \<Rightarrow> int \<Rightarrow> int \<Rightarrow> py_error + int \<times> int \<times> int" where
  "cmyk_cmd cyan magenta yellow key =
     (if \<exists>c \<in> set [cyan, magenta, yellow, key]. \<not> in_range 101 c then Inl BadArgument
      else Inr (cmyk_channel cyan key, cmyk_channel magenta key, cmyk_channel yellow key))"

subsection \<open>The derived representations\<close>

definition rgb_list :: "int \<times> int \<times> int \<Rightarrow> rat \<times> rat \<times> rat" where
  "rgb_list rgb = (case rgb of (r, g, b) \<Rightarrow> (fdiv (of_int r) 255, fdiv (of_int g) 255, fdiv (of_int b) 255))"

definition rgb_to_hsv :: "int \<times> int \<times> int \<Rightarrow> py_error + int \<times> int \<times> int" where
  "rgb_to_hsv rgb =
     (case rgb_list rgb of (r, g, b) \<Rightarrow>
        (case colorsys_rgb_to_hsv r g b of
           Inl e \<Rightarrow> Inl e
         | Inr (h, s, v) \<Rightarrow>
             Inr (py_round (fmul h 360), py_round (fmul s 100), py_round (fmul v 100))))"

definition rgb_to_hsl :: "bool \<Rightarrow> int \<times> int \<times> int \<Rightarrow> py_error + int \<times> int \<times> int" where
  "rgb_to_hsl gh106498 rgb =
     (case rgb_list rgb of (r, g, b) \<Rightarrow>
        (case colorsys_rgb_to_hls gh106498 r g b of
           Inl e \<Rightarrow> Inl e
         | Inr (h, l, s) \<Rightarrow>
             Inr (py_round (fmul h 360), py_round (fmul s 100), py_round (fmul l 100))))"

definition cmyk_part :: "rat \<Rightarrow> rat \<Rightarrow> int" where
  "cmyk_part x k = py_round (fdiv (fmul (fsub (fsub 1 x) k) 100) (fsub 1 k))"

definition rgb_to_cmyk :: "int \<times> int \<times> int \<Rightarrow> py_error + int \<times> int \<times> int \<times> int" where
  "rgb_to_cmyk rgb =
     (case rgb_list rgb of (r, g, b) \<Rightarrow>
        if r = 0 \<and> g = 0 \<and> b = 0 then Inr (0, 0, 0, 100)
        else
          let k = fsub 1 (max r (max g b))
          in if fsub 1 k = 0 then Inl ZeroDivisionError
             else Inr (cmyk_part r k, cmyk_part g k, cmyk_part b k, py_round (fmul k 100)))"

subsection \<open>Round trips\<close>

text \<open>
  The specification's round trips: a colour is derived from an RGB triple and entered again
  through the command of the same model. \<open>close_to d\<close> compares two triples channel by
  channel.
\<close>

definition close_to :: "int \<Rightarrow> int \<times> int \<times> int \<Rightarrow> int \<times> int \<times> int \<Rightarrow> bool" where
  "close_to d x y =
     (case x of (r, g, b) \<Rightarrow> case y of (r', g', b') \<Rightarrow>
        \<bar>r - r'\<bar> \<le> d \<and> \<bar>g - g'\<bar> \<le> d \<and> \<bar>b - b'\<bar> \<le> d)"

definition hsv_round_trip :: "int \<times> int \<times> int \<Rightarrow> py_error + int \<times> int \<times> int" where
  "hsv_round_trip rgb =
     (case rgb_to_hsv rgb of Inl e \<Rightarrow> Inl e | Inr (h, s, v) \<Rightarrow> hsv_cmd h s v)"

definition hsl_round_trip ::
  "bool \<Rightarrow> int \<times> int \<times> int \<Rightarrow> py_error + int \<times> int \<times> int" where
  "hsl_round_trip gh106498 rgb =
     (case rgb_to_hsl gh106498 rgb of Inl e \<Rightarrow> Inl e | Inr (h, s, l) \<Rightarrow> hsl_cmd h s l)"

definition cmyk_round_trip :: "int \<times> int \<times> int \<Rightarrow> py_error + int \<times> int \<times> int" where
  "cmyk_round_trip rgb =
     (case rgb_to_cmyk rgb of Inl e \<Rightarrow> Inl e | Inr (c, m, y, k) \<Rightarrow> cmyk_cmd c m y k)"

subsection \<open>The default scorer of \<^verbatim>\<open>rapidfuzz\<close>\<close>







section \<open>Properties\<close>

subsection \<open>Formatting a channel\<close>

lemma below_16: "(d::nat) < 16 \<Longrightarrow> d \<in> {0,1,2,3,4,5,6,7,8,9,10,11,12,13,14,15}"
  by (simp, arith)

lemma upper_hex_digits: "map upper_char ''0123456789abcdef'' = ''0123456789ABCDEF''"
  by code_simp

lemma upper_hex_digit:
  assumes "d < 16"
  shows "upper_char (hex_digit d) = ''0123456789ABCDEF'' ! d"
proof -
  have "upper_char (hex_digit d) = map upper_char ''0123456789abcdef'' ! d"
    unfolding hex_digit_def using assms by (subst nth_map) simp_all
  then show ?thesis by (simp only: upper_hex_digits)
qed

lemma hex_digit_not_sign:
  "d < 16 \<Longrightarrow> hex_digit d \<noteq> CHR ''+'' \<and> hex_digit d \<noteq> CHR ''-''"
  by (drule below_16) (auto simp: hex_digit_def)

lemma hex_nat_small: "n < 16 \<Longrightarrow> hex_nat n = [hex_digit n]"
  by (simp add: hex_nat.simps)

lemma hex_nat_two: "16 \<le> n \<Longrightarrow> n < 256 \<Longrightarrow> hex_nat n = [hex_digit (n div 16), hex_digit (n mod 16)]"
proof -
  assume a: "16 \<le> n" "n < 256"
  then have "n div 16 < 16" by simp
  with a show ?thesis
    by (subst hex_nat.simps) (simp add: hex_nat_small)
qed

lemma hex_pair_channel:
  assumes "0 \<le> v" "v \<le> 255"
  shows "upper (hex_pair v) = two_upper_digits v"
proof (cases "v < 16")
  case True
  with assms have n: "nat v < 16" "v div 16 = 0" "v mod 16 = v" by simp_all
  have z: "upper_char CHR ''0'' = CHR ''0''" by (simp add: upper_char_def)
  show ?thesis
    using assms n upper_hex_digit [of "nat v"] hex_digit_not_sign [of "nat v"]
    by (simp add: hex_pair_def py_hex_def hex_nat_small zfill_def upper_def
        two_upper_digits_def z)
next
  case False
  with assms have n: "16 \<le> nat v" "nat v < 256" by simp_all
  have d: "nat v div 16 = nat (v div 16)" "nat v mod 16 = nat (v mod 16)"
    using assms by (simp_all add: nat_div_distrib nat_mod_distrib)
  have lt: "nat (v div 16) < 16" "nat (v mod 16) < 16"
    using assms by simp_all
  show ?thesis
    using assms False upper_hex_digit [OF lt(1)] upper_hex_digit [OF lt(2)]
    by (simp add: hex_pair_def py_hex_def hex_nat_two [OF n] zfill_def upper_def
        two_upper_digits_def d)
qed

text \<open>
  Claim C9. For every RGB triple with each channel in [0,255], \<^verbatim>\<open>_rgb_to_hex\<close>
  formats each channel as exactly two uppercase hexadecimal digits (zero-padded),
  concatenates the three pairs and prefixes \<^verbatim>\<open>#\<close>, which gives a string of exactly 7
  characters; in particular \<^verbatim>\<open>_rgb_to_hex((255,0,0))\<close> is \<^verbatim>\<open>#FF0000\<close>.
\<close>

theorem rgb_to_hex_format:
  assumes "0 \<le> r" "r \<le> 255" "0 \<le> g" "g \<le> 255" "0 \<le> b" "b \<le> 255"
  shows "rgb_to_hex (r, g, b)
           = CHR ''#'' # two_upper_digits r @ two_upper_digits g @ two_upper_digits b
         \<and> length (rgb_to_hex (r, g, b)) = 7
         \<and> rgb_to_hex (255, 0, 0) = ''#FF0000''"
proof -
  have h: "upper_char CHR ''#'' = CHR ''#''" by (simp add: upper_char_def)
  have e: "rgb_to_hex (r, g, b)
             = CHR ''#'' # upper (hex_pair r) @ upper (hex_pair g) @ upper (hex_pair b)"
    by (simp add: rgb_to_hex_def upper_def h)
  have f: "rgb_to_hex (r, g, b)
             = CHR ''#'' # two_upper_digits r @ two_upper_digits g @ two_upper_digits b"
    using assms by (simp add: e hex_pair_channel)
  have r: "rgb_to_hex (255, 0, 0)
             = CHR ''#'' # upper (hex_pair 255) @ upper (hex_pair 0) @ upper (hex_pair 0)"
    by (simp add: rgb_to_hex_def upper_def h)
  have "rgb_to_hex (255, 0, 0) = ''#FF0000''"
    by (simp add: r hex_pair_channel two_upper_digits_def)
  with f show ?thesis by (simp add: two_upper_digits_def)
qed

theorem rgb_to_hex_format_witness:
  "rgb_to_hex (18, 171, 5) = ''#12AB05'' \<and> length (rgb_to_hex (18, 171, 5)) = 7"
  using rgb_to_hex_format [of 18 171 5] by (simp add: two_upper_digits_def)

subsection \<open>The \<^verbatim>\<open>hex\<close> command\<close>

lemma lower_hexdigits: "list_all (\<lambda>c. lower_hex (lower_char c)) hexdigits"
  by code_simp

lemma lower_hex_lower: "c \<in> set hexdigits \<Longrightarrow> lower_hex (lower_char c)"
  using lower_hexdigits by (simp add: list_all_iff)

lemma hash_lower: "lower_char CHR ''#'' = CHR ''#''"
  by code_simp

lemma len3: "length xs = 3 \<Longrightarrow> \<exists>a b c. xs = [a, b, c]"
  by (auto simp: length_Suc_conv numeral_eq_Suc)
lemma len4: "length xs = 4 \<Longrightarrow> \<exists>a b c d. xs = [a, b, c, d]"
  by (auto simp: length_Suc_conv numeral_eq_Suc)
lemma len6: "length xs = 6 \<Longrightarrow> \<exists>a b c d e f. xs = [a, b, c, d, e, f]"
  by (auto simp: length_Suc_conv numeral_eq_Suc)
lemma len8: "length xs = 8 \<Longrightarrow> \<exists>a b c d e f g h. xs = [a, b, c, d, e, f, g, h]"
  by (auto simp: length_Suc_conv numeral_eq_Suc)

lemma replicate_two: "replicate 2 c = [c, c]"
  by (simp add: numeral_2_eq_2)

lemma hash_body:
  assumes "length b \<in> {3, 4, 6, 8}" "\<forall>c \<in> set b. c \<in> set hexdigits"
  shows "(case getrgb_hash (CHR ''#'' # b) of
                 Inl e \<Rightarrow> Inl e
               | Inr (RGBA r g b a) \<Rightarrow> Inr (r, g, b)
               | Inr (RGB r g b) \<Rightarrow> Inr (r, g, b)) = Inr (hex_channels (CHR ''#'' # b))"
proof -
  consider "length b = 3" | "length b = 4" | "length b = 6" | "length b = 8"
    using assms(1) by auto
  then show ?thesis
  proof cases
    case 1
    then obtain x y z where b: "b = [x, y, z]" using len3 by blast
    show ?thesis using assms(2) unfolding b
      by (simp add: getrgb_hash_def lower_def hash_lower re_match_hex_def lower_hex_lower
          hex_channels_def hex_body_def Let_def replicate_two)
  next
    case 2
    then obtain x y z w where b: "b = [x, y, z, w]" using len4 by blast
    show ?thesis using assms(2) unfolding b
      by (simp add: getrgb_hash_def lower_def hash_lower re_match_hex_def lower_hex_lower
          hex_channels_def hex_body_def Let_def replicate_two)
  next
    case 3
    then obtain x y z u v w where b: "b = [x, y, z, u, v, w]" using len6 by blast
    show ?thesis using assms(2) unfolding b
      by (simp add: getrgb_hash_def lower_def hash_lower re_match_hex_def lower_hex_lower
          hex_channels_def hex_body_def Let_def replicate_two)
  next
    case 4
    then obtain x y z u v w p q where b: "b = [x, y, z, u, v, w, p, q]" using len8 by blast
    show ?thesis using assms(2) unfolding b
      by (simp add: getrgb_hash_def lower_def hash_lower re_match_hex_def lower_hex_lower
          hex_channels_def hex_body_def Let_def replicate_two)
  qed
qed

lemma hex_cmd_hash:
  "hex_cmd (CHR ''#'' # b) = (if hex_form (CHR ''#'' # b) then Inr (hex_channels (CHR ''#'' # b)) else Inl BadArgument)"
proof (cases "hex_form (CHR ''#'' # b)")
  case True
  then have v: "length b \<in> {3, 4, 6, 8}" "\<forall>c \<in> set b. c \<in> set hexdigits"
    by (simp_all add: hex_form_def hex_body_def)
  from v(1) have l: "\<not> Suc (length b) \<notin> {4, 5, 7, 9}" by auto
  show ?thesis
    using True v(2) l hash_body [OF v] by (simp add: hex_cmd_def)
next
  case False
  then have "length b \<notin> {3, 4, 6, 8} \<or> (\<exists>c \<in> set b. c \<notin> set hexdigits)"
    by (simp add: hex_form_def hex_body_def)
  then have "Suc (length b) \<notin> {4, 5, 7, 9} \<or> (\<exists>c \<in> set b. c \<notin> set hexdigits)"
    by auto
  with False show ?thesis by (auto simp add: hex_cmd_def)
qed

lemma hex_channels_hash:
  "c \<noteq> CHR ''#'' \<Longrightarrow> hex_channels (CHR ''#'' # c # cs) = hex_channels (c # cs)"
  by (simp add: hex_channels_def hex_body_def)

lemma hex_form_hash:
  "c \<noteq> CHR ''#'' \<Longrightarrow> hex_form (CHR ''#'' # c # cs) = hex_form (c # cs)"
  by (simp add: hex_form_def hex_body_def)

lemma hex_cmd_plain:
  assumes "c \<noteq> CHR ''#''"
  shows "hex_cmd (c # cs) = hex_cmd (CHR ''#'' # c # cs)"
  using assms by (simp add: hex_cmd_def)

lemma hex_cmd_nonempty:
  assumes "s \<noteq> []"
  shows "hex_cmd s = (if hex_form s then Inr (hex_channels s) else Inl BadArgument)"
proof -
  from assms obtain c cs where s: "s = c # cs" by (cases s) auto
  show ?thesis
  proof (cases "c = CHR ''#''")
    case True
    then show ?thesis unfolding s by (simp only: hex_cmd_hash)
  next
    case False
    have "hex_cmd (c # cs) = hex_cmd (CHR ''#'' # c # cs)"
      by (rule hex_cmd_plain [OF False])
    also have "\<dots> = (if hex_form (CHR ''#'' # c # cs) then Inr (hex_channels (CHR ''#'' # c # cs))
                      else Inl BadArgument)"
      by (rule hex_cmd_hash)
    also have "\<dots> = (if hex_form (c # cs) then Inr (hex_channels (c # cs)) else Inl BadArgument)"
      by (simp only: hex_form_hash [OF False] hex_channels_hash [OF False])
    finally show ?thesis unfolding s .
  qed
qed

text \<open>
  Claim C10. On the empty string the hex command raises \<^verbatim>\<open>IndexError\<close> (from
  \<^verbatim>\<open>hex_code[0]\<close>) before any validation runs; on every non-empty string it never
  raises \<^verbatim>\<open>IndexError\<close>: it either fails with the documented \<^verbatim>\<open>BadArgument\<close>,
  exactly when the string is not of the accepted form, or returns an RGB triple.
\<close>

theorem hex_cmd_total_but_empty:
  "hex_cmd [] = Inl IndexError
   \<and> (s \<noteq> [] \<longrightarrow>
        hex_cmd s \<noteq> Inl IndexError
        \<and> (hex_cmd s = Inl BadArgument \<or> (\<exists>rgb. hex_cmd s = Inr rgb))
        \<and> (hex_cmd s = Inl BadArgument \<longleftrightarrow> \<not> hex_form s))"
proof -
  have e: "hex_cmd [] = Inl IndexError" by (simp add: hex_cmd_def)
  have n: "hex_cmd s \<noteq> Inl IndexError
        \<and> (hex_cmd s = Inl BadArgument \<or> (\<exists>rgb. hex_cmd s = Inr rgb))
        \<and> (hex_cmd s = Inl BadArgument \<longleftrightarrow> \<not> hex_form s)" if "s \<noteq> []"
    by (cases "hex_form s") (simp_all add: hex_cmd_nonempty [OF that] del: split_paired_Ex)
  from e n show ?thesis by blast
qed

theorem hex_cmd_total_but_empty_witness:
  "hex_cmd [] = Inl IndexError \<and> hex_cmd ''#GG0000'' = Inl BadArgument
   \<and> \<not> hex_form ''#GG0000'' \<and> hex_cmd ''1aF'' = Inr (17, 170, 255)"
proof -
  have a: "hex_cmd ''1aF'' = Inr (17, 170, 255)" by code_simp
  have b: "\<not> hex_form ''#GG0000''" by code_simp
  show ?thesis
    using hex_cmd_total_but_empty [of "''#GG0000''"] a b by simp
qed

text \<open>
  Claim C5. The hex command is meant to fail with \<^verbatim>\<open>BadArgument\<close> on every string
  that is not 3, 4, 6 or 8 hexadecimal digits after an optional \<^verbatim>\<open>#\<close>. The empty
  string is such a string, and there the command raises \<^verbatim>\<open>IndexError\<close> instead.
\<close>

theorem hex_cmd_empty_string:
  "hex_cmd [] = Inl IndexError \<and> hex_cmd [] \<noteq> Inl BadArgument"
  by (simp add: hex_cmd_def)

theorem hex_cmd_empty_string_witness: "hex_cmd [] \<noteq> Inl BadArgument"
  using hex_cmd_empty_string by simp

subsection \<open>Fuzzy lookups\<close>




































































subsection \<open>Validation in the typed commands\<close>

text \<open>
  Claim C6. Each typed command checks its ranges before it converts anything and fails with
  \<^verbatim>\<open>BadArgument\<close> exactly when a field is out of range: every RGB channel must lie in
  [0,255]; the hue of HSV and HSL in [0,360] and their other two fields in [0,100]; all four
  CMYK fields in [0,100]. In range, the command returns the converted triple and no error.
  In particular \<^verbatim>\<open>rgb(256,0,0)\<close> and \<^verbatim>\<open>hsv(361,0,0)\<close> fail.
\<close>

theorem typed_commands_validate:
  "rgb_cmd r g b =
     (if 0 \<le> r \<and> r \<le> 255 \<and> 0 \<le> g \<and> g \<le> 255 \<and> 0 \<le> b \<and> b \<le> 255
      then Inr (r, g, b) else Inl BadArgument)
   \<and> hsv_cmd h s v =
     (if 0 \<le> h \<and> h \<le> 360 \<and> 0 \<le> s \<and> s \<le> 100 \<and> 0 \<le> v \<and> v \<le> 100
      then Inr (getrgb_hsv h s v) else Inl BadArgument)
   \<and> hsl_cmd h s l =
     (if 0 \<le> h \<and> h \<le> 360 \<and> 0 \<le> s \<and> s \<le> 100 \<and> 0 \<le> l \<and> l \<le> 100
      then Inr (getrgb_hsl h s l) else Inl BadArgument)
   \<and> cmyk_cmd c m y k =
     (if 0 \<le> c \<and> c \<le> 100 \<and> 0 \<le> m \<and> m \<le> 100 \<and> 0 \<le> y \<and> y \<le> 100 \<and> 0 \<le> k \<and> k \<le> 100
      then Inr (cmyk_channel c k, cmyk_channel m k, cmyk_channel y k) else Inl BadArgument)
   \<and> rgb_cmd 256 0 0 = Inl BadArgument \<and> hsv_cmd 361 0 0 = Inl BadArgument"
proof -
  have 1: "rgb_cmd r g b =
     (if 0 \<le> r \<and> r \<le> 255 \<and> 0 \<le> g \<and> g \<le> 255 \<and> 0 \<le> b \<and> b \<le> 255
      then Inr (r, g, b) else Inl BadArgument)" for r g b
    by (auto simp: rgb_cmd_def in_range_def)
  have 2: "hsv_cmd h s v =
     (if 0 \<le> h \<and> h \<le> 360 \<and> 0 \<le> s \<and> s \<le> 100 \<and> 0 \<le> v \<and> v \<le> 100
      then Inr (getrgb_hsv h s v) else Inl BadArgument)" for h s v
    by (auto simp: hsv_cmd_def in_range_def)
  have 3: "hsl_cmd h s l =
     (if 0 \<le> h \<and> h \<le> 360 \<and> 0 \<le> s \<and> s \<le> 100 \<and> 0 \<le> l \<and> l \<le> 100
      then Inr (getrgb_hsl h s l) else Inl BadArgument)"
    by (auto simp: hsl_cmd_def in_range_def)
  have 4: "cmyk_cmd c m y k =
     (if 0 \<le> c \<and> c \<le> 100 \<and> 0 \<le> m \<and> m \<le> 100 \<and> 0 \<le> y \<and> y \<le> 100 \<and> 0 \<le> k \<and> k \<le> 100
      then Inr (cmyk_channel c k, cmyk_channel m k, cmyk_channel y k) else Inl BadArgument)"
    by (auto simp: cmyk_cmd_def in_range_def)
  have 5: "rgb_cmd 256 0 0 = Inl BadArgument" by (simp add: 1)
  have 6: "hsv_cmd 361 0 0 = Inl BadArgument" by (simp add: 2)
  from 1 [of r g b] 2 [of h s v] 3 4 5 6 show ?thesis by (simp only: simp_thms)
qed

theorem typed_commands_validate_witness:
  "rgb_cmd 12 200 77 = Inr (12, 200, 77) \<and> rgb_cmd 12 (- 1) 77 = Inl BadArgument
   \<and> hsl_cmd 360 100 101 = Inl BadArgument \<and> cmyk_cmd 0 0 0 (- 3) = Inl BadArgument
   \<and> hsv_cmd 0 0 0 = Inr (getrgb_hsv 0 0 0)"
  using typed_commands_validate [of 12 200 77 0 0 0 0 0 0 0 "- 3"]
    typed_commands_validate [of 12 "- 1" 77 360 100 0 101]
  by simp

subsection \<open>Round trips that miss by two\<close>

theorem hsv_round_trip_counterexample:
  "hsv_round_trip (255, 2, 0) = Inr (255, 0, 0) \<and> \<not> close_to 1 (255, 2, 0) (255, 0, 0)"
  by code_simp

lemma hsl_round_trip_example:
  "hsl_round_trip True (12, 200, 77) = Inr (12, 202, 79)
   \<and> \<not> close_to 1 (12, 200, 77) (12, 202, 79)"
  by code_simp

subsection \<open>Rounding to a float\<close>

lemma pow2_powi: "pow2 e = 2 powi e"
  by (simp add: pow2_def power_int_def inverse_eq_divide power_one_over)

lemma pow2_pos: "0 < pow2 e"
  by (simp add: pow2_powi)

lemma pow2_add: "pow2 (a + b) = pow2 a * pow2 b"
  by (simp add: pow2_powi power_int_add)

lemma pow2_diff: "pow2 (a - b) = pow2 a / pow2 b"
  by (simp add: pow2_powi power_int_diff)

lemma pow2_nat: "pow2 (int n) = 2 ^ n"
  by (simp add: pow2_powi)

lemma pow2_mono: "a \<le> b \<Longrightarrow> pow2 a \<le> pow2 b"
  by (simp add: pow2_powi power_int_increasing)

lemma pow2_strict_mono: "a < b \<Longrightarrow> pow2 a < pow2 b"
  by (simp add: pow2_powi power_int_strict_increasing)

lemma pow2_less_cancel: "pow2 a < pow2 b \<Longrightarrow> a < b"
  using pow2_mono [of b a] by (cases "a < b") auto

lemma pow2_Suc: "pow2 (e + 1) = 2 * pow2 e"
proof -
  have "pow2 1 = 2" by (simp add: pow2_def)
  then show ?thesis by (simp add: pow2_add)
qed

lemma bitlen_rat_bounds:
  assumes "0 < a"
  shows "pow2 (bitlen a - 1) \<le> of_int a" and "of_int a < pow2 (bitlen a)"
proof -
  from assms have b1: "1 \<le> bitlen a"
    using bitlen_eq_zero_iff [of a] bitlen_nonneg [of a] by linarith
  have lo: "2 ^ nat (bitlen a - 1) \<le> a" and hi: "a < 2 ^ nat (bitlen a)"
    using bitlen_bounds [OF assms] by simp_all
  have "pow2 (bitlen a - 1) = of_int (2 ^ nat (bitlen a - 1))"
    using b1 by (simp add: pow2_def)
  also have "\<dots> \<le> of_int a" using lo by (simp only: of_int_le_iff)
  finally show "pow2 (bitlen a - 1) \<le> of_int a" .
  have "of_int a < (of_int (2 ^ nat (bitlen a)) :: rat)" using hi by (simp only: of_int_less_iff)
  also have "\<dots> = pow2 (bitlen a)" using b1 by (simp add: pow2_def)
  finally show "of_int a < pow2 (bitlen a)" .
qed

lemma ilog2_bounds:
  assumes "0 < x"
  shows "pow2 (ilog2 x) \<le> x" and "x < pow2 (ilog2 x + 1)"
proof -
  obtain a b where q: "quotient_of x = (a, b)" by (cases "quotient_of x")
  then have b: "0 < b" by (rule quotient_of_denom_pos)
  have x: "x = of_int a / of_int b" using q by (rule quotient_of_div)
  have a: "0 < a" using assms b x by (simp add: zero_less_divide_iff)
  define e where "e = bitlen a - bitlen b"
  note A = bitlen_rat_bounds [OF a] and B = bitlen_rat_bounds [OF b]
  have bpos: "(0::rat) < of_int b" using b by simp
  have "x < pow2 (bitlen a) / pow2 (bitlen b - 1)"
    unfolding x using a A(2) B(1) bpos pow2_pos [of "bitlen b - 1"]
    by (intro frac_less) (simp_all add: less_imp_le)
  also have "\<dots> = pow2 (e + 1)"
    by (simp add: e_def pow2_diff [symmetric] algebra_simps)
  finally have up: "x < pow2 (e + 1)" .
  have "pow2 (e - 1) = pow2 (bitlen a - 1) / pow2 (bitlen b)"
    by (simp add: e_def pow2_diff [symmetric] algebra_simps)
  also have "\<dots> \<le> x"
    unfolding x using a A(1) B(2) bpos pow2_pos [of "bitlen a - 1"]
    by (intro frac_le) (simp_all add: less_imp_le)
  finally have lo: "pow2 (e - 1) \<le> x" .
  have il: "ilog2 x = (if pow2 e \<le> x then e else e - 1)"
    by (simp add: ilog2_def q e_def Let_def)
  show "pow2 (ilog2 x) \<le> x" using lo by (simp add: il)
  show "x < pow2 (ilog2 x + 1)" using up by (auto simp add: il)
qed

lemma ilog2_unique:
  assumes "pow2 e \<le> x" "x < pow2 (e + 1)"
  shows "ilog2 x = e"
proof -
  have x: "0 < x" using assms(1) pow2_pos [of e] by simp
  note I = ilog2_bounds [OF x]
  have "pow2 e < pow2 (ilog2 x + 1)" using assms(1) I(2) by simp
  then have 1: "e < ilog2 x + 1" by (rule pow2_less_cancel)
  have "pow2 (ilog2 x) < pow2 (e + 1)" using assms(2) I(1) by simp
  then have 2: "ilog2 x < e + 1" by (rule pow2_less_cancel)
  from 1 2 show ?thesis by simp
qed

lemma ilog2_mono:
  assumes "0 < x" "x \<le> y"
  shows "ilog2 x \<le> ilog2 y"
proof -
  have y: "0 < y" using assms by simp
  have "pow2 (ilog2 x) < pow2 (ilog2 y + 1)"
    using ilog2_bounds(1) [OF assms(1)] ilog2_bounds(2) [OF y] assms(2) by simp
  then have "ilog2 x < ilog2 y + 1" by (rule pow2_less_cancel)
  then show ?thesis by simp
qed

lemma rhe_int: "round_half_even (of_int n) = n"
  by (simp add: round_half_even_def)

lemma rhe_err: "\<bar>of_int (round_half_even x) - x\<bar> \<le> 1 / 2"
proof -
  have "of_int \<lfloor>x\<rfloor> \<le> x" "x < of_int \<lfloor>x\<rfloor> + 1" by linarith+
  then show ?thesis
    by (auto simp: round_half_even_def Let_def abs_le_iff)
qed

lemma rhe_mono:
  assumes "x \<le> y"
  shows "round_half_even x \<le> round_half_even y"
proof (rule ccontr)
  assume "\<not> round_half_even x \<le> round_half_even y"
  then have "round_half_even y + 1 \<le> round_half_even x" by simp
  then have "(of_int (round_half_even y + 1) :: rat) \<le> of_int (round_half_even x)"
    by (simp only: of_int_le_iff)
  then have i: "(of_int (round_half_even y) :: rat) + 1 \<le> of_int (round_half_even x)" by simp
  have "x \<ge> of_int (round_half_even x) - 1 / 2" using rhe_err [of x] by linarith
  moreover have "y \<le> of_int (round_half_even y) + 1 / 2"
    using rhe_err [of y] by linarith
  ultimately have "y \<le> x" using i by linarith
  with assms have "x = y" by simp
  with \<open>\<not> round_half_even x \<le> round_half_even y\<close> show False by simp
qed

lemma fl_zero: "fl 0 = 0"
  by (simp add: fl_def)

lemma fl_pos_eq:
  assumes "0 < x"
  shows "fl x = of_int (round_half_even (x / pow2 (ilog2 x - 52))) * pow2 (ilog2 x - 52)"
  using assms by (simp add: fl_def Let_def)

lemma fl_scaled:
  assumes "0 < x"
  shows "2 ^ 52 \<le> x / pow2 (ilog2 x - 52)" and "x / pow2 (ilog2 x - 52) < 2 ^ 53"
proof -
  let ?e = "ilog2 x"
  note I = ilog2_bounds [OF assms]
  have u: "0 < pow2 (?e - 52)" by (rule pow2_pos)
  have a: "pow2 ?e = 2 ^ 52 * pow2 (?e - 52)"
    using pow2_add [of 52 "?e - 52"] pow2_nat [of 52] by simp
  have b: "pow2 (?e + 1) = 2 ^ 53 * pow2 (?e - 52)"
    using pow2_add [of 53 "?e - 52"] pow2_nat [of 53] by (simp add: add.commute)
  show "2 ^ 52 \<le> x / pow2 (?e - 52)"
    using I(1) u by (simp add: a le_divide_eq)
  show "x / pow2 (?e - 52) < 2 ^ 53"
    using I(2) u by (simp add: b divide_less_eq)
qed

lemma fl_err_abs:
  assumes "0 < x"
  shows "\<bar>fl x - x\<bar> \<le> pow2 (ilog2 x - 53)"
proof -
  let ?u = "pow2 (ilog2 x - 52)"
  let ?q = "x / ?u"
  have u: "0 < ?u" by (rule pow2_pos)
  have h: "pow2 (ilog2 x - 53) = ?u / 2"
    using pow2_Suc [of "ilog2 x - 53"] by simp
  have "fl x - x = (of_int (round_half_even ?q) - ?q) * ?u"
    using u by (simp add: fl_pos_eq [OF assms] algebra_simps)
  then have "\<bar>fl x - x\<bar> = \<bar>of_int (round_half_even ?q) - ?q\<bar> * ?u"
    using u by (simp add: abs_mult)
  also have "\<dots> \<le> 1 / 2 * ?u"
    using rhe_err [of ?q] u by (intro mult_right_mono) simp_all
  finally show ?thesis by (simp add: h)
qed

lemma fl_err_rel:
  assumes "0 < x"
  shows "\<bar>fl x - x\<bar> \<le> x / 2 ^ 53"
proof -
  have "pow2 (ilog2 x - 53) = pow2 (ilog2 x) / 2 ^ 53"
    using pow2_diff [of "ilog2 x" 53] pow2_nat [of 53] by simp
  also have "\<dots> \<le> x / 2 ^ 53"
    using ilog2_bounds(1) [OF assms] by (simp add: divide_right_mono)
  finally show ?thesis using fl_err_abs [OF assms] by simp
qed

lemma fl_pos_range:
  assumes "0 < x"
  shows "pow2 (ilog2 x) \<le> fl x" and "fl x \<le> pow2 (ilog2 x + 1)"
proof -
  let ?e = "ilog2 x"
  let ?u = "pow2 (?e - 52)"
  let ?n = "round_half_even (x / ?u)"
  have u: "0 < ?u" by (rule pow2_pos)
  note S = fl_scaled [OF assms]
  have "round_half_even (of_int (2 ^ 52)) \<le> ?n"
    using S(1) by (intro rhe_mono) simp
  then have lo: "2 ^ 52 \<le> ?n" by (simp only: rhe_int)
  have "?n \<le> round_half_even (of_int (2 ^ 53))"
    using S(2) by (intro rhe_mono) simp
  then have hi: "?n \<le> 2 ^ 53" by (simp only: rhe_int)
  have a: "pow2 ?e = 2 ^ 52 * ?u"
    using pow2_add [of 52 "?e - 52"] pow2_nat [of 52] by simp
  have b: "pow2 (?e + 1) = 2 ^ 53 * ?u"
    using pow2_add [of 53 "?e - 52"] pow2_nat [of 53] by (simp add: add.commute)
  have "(of_int (2 ^ 52) :: rat) \<le> of_int ?n" using lo by (simp only: of_int_le_iff)
  then show "pow2 ?e \<le> fl x"
    using u by (simp add: a fl_pos_eq [OF assms])
  have "(of_int ?n :: rat) \<le> of_int (2 ^ 53)" using hi by (simp only: of_int_le_iff)
  then show "fl x \<le> pow2 (?e + 1)"
    using u by (simp add: b fl_pos_eq [OF assms])
qed

lemma fl_pos: "0 < x \<Longrightarrow> 0 < fl x"
  using fl_pos_range(1) [of x] pow2_pos [of "ilog2 x"] by simp

lemma fl_nonneg: "0 \<le> x \<Longrightarrow> 0 \<le> fl x"
  using fl_pos [of x] fl_zero by (cases "x = 0") (simp_all add: less_imp_le)

lemma fl_mono_pos:
  assumes "0 < x" "x \<le> y"
  shows "fl x \<le> fl y"
proof -
  have y: "0 < y" using assms by simp
  have le: "ilog2 x \<le> ilog2 y" by (rule ilog2_mono [OF assms])
  show ?thesis
  proof (cases "ilog2 x = ilog2 y")
    case True
    let ?u = "pow2 (ilog2 y - 52)"
    have u: "0 < ?u" by (rule pow2_pos)
    have "x / ?u \<le> y / ?u" using assms(2) u by (simp add: divide_right_mono)
    then have "round_half_even (x / ?u) \<le> round_half_even (y / ?u)" by (rule rhe_mono)
    then have "(of_int (round_half_even (x / ?u)) :: rat) \<le> of_int (round_half_even (y / ?u))"
      by (simp only: of_int_le_iff)
    then show ?thesis
      using u by (simp add: fl_pos_eq [OF assms(1)] fl_pos_eq [OF y] True)
  next
    case False
    with le have "ilog2 x + 1 \<le> ilog2 y" by simp
    then have "pow2 (ilog2 x + 1) \<le> pow2 (ilog2 y)" by (rule pow2_mono)
    with fl_pos_range(2) [OF assms(1)] fl_pos_range(1) [OF y] show ?thesis by simp
  qed
qed

lemma fl_mono:
  assumes "0 \<le> x" "x \<le> y"
  shows "fl x \<le> fl y"
proof (cases "x = 0")
  case True
  with assms fl_nonneg [of y] show ?thesis by (simp add: fl_zero)
next
  case False
  with assms have "0 < x" by simp
  then show ?thesis using assms(2) by (rule fl_mono_pos)
qed

lemma fl_repr:
  assumes m: "0 < m" "m \<le> 2 ^ 53"
  shows "fl (of_int m * pow2 k) = of_int m * pow2 k"
proof -
  let ?x = "of_int m * pow2 k"
  have x: "0 < ?x" using m(1) pow2_pos [of k] by simp
  let ?e = "ilog2 ?x"
  let ?u = "pow2 (?e - 52)"
  have u: "0 < ?u" by (rule pow2_pos)
  note S = fl_scaled [OF x]
  have "\<exists>n. ?x / ?u = of_int n"
  proof (cases "?e - 52 \<le> k")
    case True
    define j where "j = nat (k - (?e - 52))"
    have "pow2 k / ?u = pow2 (k - (?e - 52))" by (simp only: pow2_diff)
    also have "k - (?e - 52) = int j" using True by (simp add: j_def)
    finally have "pow2 k / ?u = 2 ^ j" by (simp only: pow2_nat)
    moreover have "?x / ?u = of_int m * (pow2 k / ?u)" by simp
    ultimately have "?x / ?u = of_int m * 2 ^ j" by simp
    then have "?x / ?u = of_int (m * 2 ^ j)" by simp
    then show ?thesis ..
  next
    case False
    define j where "j = nat (?e - 52 - k)"
    have j: "0 < j" using False by (simp add: j_def)
    have "pow2 k / ?u = pow2 (k - (?e - 52))" by (simp only: pow2_diff)
    also have "k - (?e - 52) = 0 - int j" using False by (simp add: j_def)
    also have "pow2 (0 - int j) = pow2 0 / pow2 (int j)" by (simp only: pow2_diff)
    finally have "pow2 k / ?u = 1 / 2 ^ j" by (simp add: pow2_nat pow2_def)
    moreover have "?x / ?u = of_int m * (pow2 k / ?u)" by simp
    ultimately have q: "?x / ?u = of_int m / 2 ^ j" by simp
    have "(2::rat) ^ 52 * 2 ^ j \<le> of_int m" using S(1) by (simp add: q le_divide_eq)
    moreover have "(2::rat) ^ 52 * 2 ^ 1 \<le> 2 ^ 52 * 2 ^ j"
      using j by (intro mult_left_mono power_increasing) simp_all
    moreover have "(of_int m :: rat) \<le> of_int (2 ^ 53)" using m(2) by (simp only: of_int_le_iff)
    ultimately have e1: "(of_int m :: rat) = 2 ^ 53" and e2: "(2::rat) ^ 52 * 2 ^ j = 2 ^ 53"
      by simp_all
    from e2 have j2: "(2::rat) ^ j = 2" by simp
    note q
    also have "of_int m / (2::rat) ^ j = 2 ^ 53 / 2" by (simp only: e1 j2)
    also have "\<dots> = of_int (2 ^ 52)" by simp
    finally show ?thesis ..
  qed
  then obtain n where n: "?x / ?u = of_int n" ..
  have "fl ?x = of_int (round_half_even (?x / ?u)) * ?u" by (rule fl_pos_eq [OF x])
  also have "\<dots> = (?x / ?u) * ?u" by (simp only: n rhe_int)
  also have "\<dots> = ?x" using u by simp
  finally show ?thesis .
qed

lemma fl_of_int:
  assumes "0 \<le> n" "n \<le> 2 ^ 53"
  shows "fl (of_int n) = of_int n"
proof (cases "n = 0")
  case True
  then show ?thesis by (simp add: fl_zero)
next
  case False
  with assms have "0 < n" by simp
  from fl_repr [OF this assms(2), of 0] show ?thesis by (simp add: pow2_def)
qed

lemma fl_half: "fl (1 / 2) = 1 / 2"
  using fl_repr [of 1 "- 1"] by (simp add: pow2_def)

lemma fl_between:
  assumes "a \<le> x" "x \<le> b" "0 \<le> a" "fl a = a" "fl b = b"
  shows "a \<le> fl x" and "fl x \<le> b"
proof -
  have "fl a \<le> fl x" using assms(3,1) by (rule fl_mono)
  then show "a \<le> fl x" by (simp add: assms(4))
  have "0 \<le> x" using assms(1,3) by simp
  then have "fl x \<le> fl b" using assms(2) by (rule fl_mono)
  then show "fl x \<le> b" by (simp add: assms(5))
qed

lemma fl_idem: "0 \<le> x \<Longrightarrow> fl (fl x) = fl x"
proof (cases "x = 0")
  case True
  then show ?thesis by (simp add: fl_zero)
next
  case False
  assume "0 \<le> x"
  with False have x: "0 < x" by simp
  let ?u = "pow2 (ilog2 x - 52)"
  let ?n = "round_half_even (x / ?u)"
  have u: "0 < ?u" by (rule pow2_pos)
  note S = fl_scaled [OF x]
  have "round_half_even (of_int (2 ^ 52)) \<le> ?n"
    using S(1) by (intro rhe_mono) simp
  then have lo: "0 < ?n" by (simp only: rhe_int) simp
  have "?n \<le> round_half_even (of_int (2 ^ 53))"
    using S(2) by (intro rhe_mono) simp
  then have hi: "?n \<le> 2 ^ 53" by (simp only: rhe_int)
  show ?thesis
    unfolding fl_pos_eq [OF x] by (rule fl_repr [OF lo hi])
qed

lemma fl_upper:
  assumes "0 \<le> x"
  shows "fl x \<le> x * (1 + 1 / 2 ^ 53)"
proof (cases "x = 0")
  case True
  then show ?thesis by (simp add: fl_zero)
next
  case False
  with assms have "0 < x" by simp
  from fl_err_rel [OF this] have "fl x - x \<le> x / 2 ^ 53" by linarith
  then show ?thesis by (simp add: algebra_simps)
qed

lemma fl_lower:
  assumes "0 \<le> x"
  shows "x * (1 - 1 / 2 ^ 53) \<le> fl x"
proof (cases "x = 0")
  case True
  then show ?thesis by (simp add: fl_zero)
next
  case False
  with assms have "0 < x" by simp
  from fl_err_rel [OF this] have "x - fl x \<le> x / 2 ^ 53" by linarith
  then show ?thesis by (simp add: algebra_simps)
qed

lemma fl_one: "fl 1 = 1"
  using fl_of_int [of 1] by simp

lemma fl_unit:
  assumes "0 \<le> x" "x \<le> 1"
  shows "0 \<le> fl x" and "fl x \<le> 1"
  using fl_between [OF assms(1,2) _ fl_zero fl_one] by simp_all

lemma py_round_ge: "of_int n \<le> x \<Longrightarrow> n \<le> py_round x"
  unfolding py_round_def using rhe_mono [of "of_int n" x] by (simp add: rhe_int)

lemma py_round_le:
  assumes "x < of_int n + 1 / 2"
  shows "py_round x \<le> n"
proof -
  have "of_int (round_half_even x) \<le> x + 1 / 2" using rhe_err [of x] by linarith
  with assms have "(of_int (round_half_even x) :: rat) < of_int (n + 1)" by simp
  then have "round_half_even x < n + 1" by (simp only: of_int_less_iff)
  then show ?thesis by (simp add: py_round_def)
qed

lemma py_round_zero: "py_round 0 = 0"
  by (simp add: py_round_def round_half_even_def)

text \<open>A fraction of one, scaled by a whole number and rounded, stays in range.\<close>

lemma scaled_round_range:
  assumes "0 \<le> x" "x \<le> 1" "0 \<le> n" "n \<le> 2 ^ 53"
  shows "0 \<le> py_round (fmul x (of_int n))" and "py_round (fmul x (of_int n)) \<le> n"
proof -
  have n: "(0::rat) \<le> of_int n" using assms(3) by simp
  have a: "0 \<le> x * of_int n" using assms(1) n by simp
  have b: "x * of_int n \<le> of_int n" using mult_right_mono [OF assms(2) n] by simp
  have r: "fl (of_int n) = of_int n" using assms(3,4) by (rule fl_of_int)
  note B = fl_between [OF a b _ fl_zero r]
  have "of_int 0 \<le> fmul x (of_int n)" using B(1) by (simp add: fmul_def)
  then show "0 \<le> py_round (fmul x (of_int n))" by (rule py_round_ge)
  have "fmul x (of_int n) < of_int n + 1 / 2" using B(2) by (simp add: fmul_def)
  then show "py_round (fmul x (of_int n)) \<le> n" by (rule py_round_le)
qed

lemma py_mod1_range: "0 \<le> py_mod1 x \<and> py_mod1 x \<le> 1"
proof -
  let ?m = "x - of_int (py_int x)"
  have m: "- 1 < ?m \<and> ?m < 1"
  proof (cases "0 \<le> x")
    case True
    have "py_int x = \<lfloor>x\<rfloor>" using True by (simp add: py_int_def)
    then show ?thesis by linarith
  next
    case False
    have "py_int x = - \<lfloor>- x\<rfloor>" using False by (simp add: py_int_def)
    then show ?thesis by linarith
  qed
  show ?thesis
  proof (cases "?m < 0")
    case True
    have "0 \<le> ?m + 1" "?m + 1 \<le> 1" using m True by simp_all
    from fl_unit [OF this] True show ?thesis
      by (simp add: py_mod1_def Let_def fadd_def)
  next
    case False
    with m show ?thesis by (simp add: py_mod1_def Let_def)
  qed
qed

lemma channel_unit:
  assumes "0 \<le> n" "n \<le> 255"
  shows "0 \<le> fdiv (of_int n) 255" and "fdiv (of_int n) 255 \<le> 1"
    and "fl (fdiv (of_int n) 255) = fdiv (of_int n) 255"
proof -
  have a: "(0::rat) \<le> of_int n / 255" using assms(1) by simp
  have b: "(of_int n :: rat) / 255 \<le> 1" using assms(2) by simp
  from fl_unit [OF a b] show "0 \<le> fdiv (of_int n) 255" "fdiv (of_int n) 255 \<le> 1"
    by (simp_all add: fdiv_def)
  show "fl (fdiv (of_int n) 255) = fdiv (of_int n) 255"
    unfolding fdiv_def using a by (rule fl_idem)
qed

subsection \<open>Channels as floats\<close>

lemma fl_err_le:
  assumes "0 \<le> x" "x \<le> B"
  shows "\<bar>fl x - x\<bar> \<le> B / 2 ^ 53"
proof (cases "x = 0")
  case True
  with assms show ?thesis by (simp add: fl_zero)
next
  case False
  with assms have x: "0 < x" by simp
  have "x / 2 ^ 53 \<le> B / 2 ^ 53" using assms(2) by (simp add: divide_right_mono)
  with fl_err_rel [OF x] show ?thesis by linarith
qed

lemma fl_pow2: "fl (pow2 k) = pow2 k"
  using fl_repr [of 1 k] by simp

lemma channel_pos:
  assumes "1 \<le> n"
  shows "1 / 256 \<le> fdiv (of_int n) 255"
proof -
  have p: "pow2 (- 8) = 1 / 256" by (simp add: pow2_def)
  have "(1::rat) \<le> of_int n" using assms by simp
  then have a: "(1::rat) / 256 \<le> of_int n / 255" by (simp add: field_simps)
  have "fl (1 / 256) \<le> fl (of_int n / 255)" using a by (intro fl_mono) simp_all
  moreover have "fl (1 / 256) = 1 / 256" using fl_pow2 [of "- 8"] by (simp only: p)
  ultimately show ?thesis by (simp add: fdiv_def)
qed

lemma channel_zero: "fdiv 0 255 = 0"
  by (simp add: fdiv_def fl_zero)

lemma fl_err_unit:
  assumes "0 \<le> x" "x \<le> 1"
  shows "\<bar>fl x - x\<bar> \<le> 1 / 2 ^ 53"
  using fl_err_le [OF assms] by simp

lemma channel_close:
  assumes "0 \<le> n" "n \<le> 255"
  shows "\<bar>fdiv (of_int n) 255 - of_int n / 255\<bar> \<le> 1 / 2 ^ 53"
proof -
  have "(0::rat) \<le> of_int n / 255" "(of_int n :: rat) / 255 \<le> 1" using assms by simp_all
  then show ?thesis unfolding fdiv_def by (rule fl_err_unit)
qed

lemma channel_mono:
  assumes "0 \<le> x" "x \<le> y"
  shows "fdiv (of_int x) 255 \<le> fdiv (of_int y) 255"
  unfolding fdiv_def using assms by (intro fl_mono) simp_all

lemma fl_256: "fl (1 / 256) = 1 / 256"
proof -
  have "pow2 (- 8) = 1 / 256" by (simp add: pow2_def)
  with fl_pow2 [of "- 8"] show ?thesis by simp
qed

lemma channel_max2:
  assumes "0 \<le> a" "0 \<le> b"
  shows "max (fdiv (of_int a) 255) (fdiv (of_int b) 255) = fdiv (of_int (max a b)) 255"
proof (cases "a \<le> b")
  case True
  with channel_mono [OF assms(1) True] show ?thesis by (simp add: max_absorb2)
next
  case False
  then have ba: "b \<le> a" by simp
  with channel_mono [OF assms(2) ba] show ?thesis by (simp add: max_absorb1)
qed

lemma channel_max3:
  assumes "0 \<le> r" "0 \<le> g" "0 \<le> b"
  shows "max (fdiv (of_int r) 255) (max (fdiv (of_int g) 255) (fdiv (of_int b) 255))
           = fdiv (of_int (max r (max g b))) 255"
proof -
  have "0 \<le> max g b" using assms(2) by simp
  from channel_max2 [OF assms(1) this] channel_max2 [OF assms(2,3)] show ?thesis by simp
qed

lemma channel_min2:
  assumes "0 \<le> a" "0 \<le> b"
  shows "min (fdiv (of_int a) 255) (fdiv (of_int b) 255) = fdiv (of_int (min a b)) 255"
proof (cases "a \<le> b")
  case True
  with channel_mono [OF assms(1) True] show ?thesis by (simp add: min_absorb1)
next
  case False
  then have ba: "b \<le> a" by simp
  with channel_mono [OF assms(2) ba] show ?thesis by (simp add: min_absorb2)
qed

lemma channel_min3:
  assumes "0 \<le> r" "0 \<le> g" "0 \<le> b"
  shows "min (fdiv (of_int r) 255) (min (fdiv (of_int g) 255) (fdiv (of_int b) 255))
           = fdiv (of_int (min r (min g b))) 255"
proof -
  have "0 \<le> min g b" using assms(2,3) by simp
  from channel_min2 [OF assms(1) this] channel_min2 [OF assms(2,3)] show ?thesis by simp
qed

text \<open>Two channels that differ as floats are at least \<open>1/256\<close> apart.\<close>

lemma channel_gap:
  assumes "0 \<le> a" "a \<le> 255" "0 \<le> b" "b \<le> 255"
    and "fdiv (of_int a) 255 < fdiv (of_int b) 255"
  shows "1 / 256 \<le> fdiv (of_int b) 255 - fdiv (of_int a) 255"
proof -
  have "a < b"
  proof (rule ccontr)
    assume "\<not> a < b"
    then have "b \<le> a" by simp
    from channel_mono [OF assms(3) this] assms(5) show False by simp
  qed
  then have "a + 1 \<le> b" by simp
  then have "(of_int (a + 1) :: rat) \<le> of_int b" by (simp only: of_int_le_iff)
  then have d: "(of_int a :: rat) / 255 + 1 / 255 \<le> of_int b / 255"
    by (simp add: field_simps)
  note A = channel_close [OF assms(1,2)] and B = channel_close [OF assms(3,4)]
  have "fdiv (of_int b) 255 - fdiv (of_int a) 255 \<ge> 1 / 255 - 2 / 2 ^ 53"
    using A B d unfolding abs_le_iff by (auto simp: algebra_simps)
  then show ?thesis by simp
qed

subsection \<open>Ranges of the derived representations\<close>

lemma max3_cases:
  fixes r g b :: rat
  shows "max r (max g b) = r \<or> max r (max g b) = g \<or> max r (max g b) = b"
  by linarith

lemma fl_max3:
  assumes "fl r = r" "fl g = g" "fl b = b"
  shows "fl (max r (max g b)) = max r (max g b)"
  using max3_cases [of r g b] assms by (elim disjE) (simp_all only:)

lemma min3_le_max3:
  fixes r g b :: rat
  shows "min r (min g b) \<le> max r (max g b)"
  by linarith

lemma fl_two: "fl 2 = 2"
  using fl_of_int [of 2] by simp

lemma range_pos: "mn < mx \<Longrightarrow> 0 < fsub mx mn"
  unfolding fsub_def by (rule fl_pos) simp

lemma range_le_sum:
  assumes "0 \<le> mn" "mn < mx"
  shows "fsub mx mn \<le> fadd mx mn"
  unfolding fsub_def fadd_def using assms by (intro fl_mono) simp_all

lemma range_le_rest:
  assumes "0 \<le> mn" "mn < mx" "mx \<le> 1" "fl mx = mx"
  shows "fsub mx mn \<le> fsub (fsub 2 mx) mn"
proof -
  have t0: "mx \<le> 2 - mx" "2 - mx \<le> 2" "0 \<le> mx" using assms by simp_all
  have "mx \<le> fl (2 - mx)"
    using fl_between(1) [OF t0(1,2) t0(3) assms(4) fl_two] .
  then have "mx - mn \<le> fl (2 - mx) - mn" by simp
  moreover have "0 \<le> mx - mn" using assms(2) by simp
  ultimately have "fl (mx - mn) \<le> fl (fl (2 - mx) - mn)" by (rule fl_mono [rotated])
  then show ?thesis by (simp add: fsub_def)
qed

lemma lightness_unit:
  assumes "0 \<le> mn" "mn \<le> mx" "mx \<le> 1"
  shows "0 \<le> fdiv (fadd mx mn) 2" and "fdiv (fadd mx mn) 2 \<le> 1"
proof -
  have s0: "0 \<le> mx + mn" "mx + mn \<le> 2" using assms by simp_all
  have sumc: "0 \<le> fadd mx mn" "fadd mx mn \<le> 2"
    unfolding fadd_def using fl_between [OF s0 _ fl_zero fl_two] by simp_all
  have l0: "0 \<le> fadd mx mn / 2" "fadd mx mn / 2 \<le> 1" using sumc by simp_all
  show "0 \<le> fdiv (fadd mx mn) 2" "fdiv (fadd mx mn) 2 \<le> 1"
    unfolding fdiv_def using fl_unit [OF l0] by simp_all
qed

lemma ratio_unit:
  assumes "0 < x" "x \<le> d"
  shows "0 \<le> fdiv x d" and "fdiv x d \<le> 1"
proof -
  have "0 \<le> x / d" "x / d \<le> 1" using assms by (simp_all add: divide_le_eq)
  from fl_unit [OF this] show "0 \<le> fdiv x d" "fdiv x d \<le> 1" by (simp_all add: fdiv_def)
qed

lemma range_le_max:
  assumes "0 \<le> mn" "mn < mx" "fl mx = mx"
  shows "fsub mx mn \<le> mx"
proof -
  have d: "0 \<le> mx - mn" "mx - mn \<le> mx" using assms(1,2) by simp_all
  show ?thesis
    unfolding fsub_def using fl_between(2) [OF d(1,2) _ fl_zero assms(3)] by simp
qed

lemma colorsys_rgb_to_hsv_unit:
  assumes "0 \<le> r" "r \<le> 1" "0 \<le> g" "g \<le> 1" "0 \<le> b" "b \<le> 1"
    and "fl r = r" "fl g = g" "fl b = b"
  shows "\<exists>h s v. colorsys_rgb_to_hsv r g b = Inr (h, s, v)
           \<and> 0 \<le> h \<and> h \<le> 1 \<and> 0 \<le> s \<and> s \<le> 1 \<and> 0 \<le> v \<and> v \<le> 1"
proof -
  define maxc where "maxc = max r (max g b)"
  define minc where "minc = min r (min g b)"
  define rangec where "rangec = fsub maxc minc"
  have mx: "0 \<le> maxc" "maxc \<le> 1" and mn: "0 \<le> minc" and le: "minc \<le> maxc"
    unfolding maxc_def minc_def using assms(1-6) by linarith+
  have rep: "fl maxc = maxc"
    unfolding maxc_def using assms(7-9) by (rule fl_max3)
  have unfold: "colorsys_rgb_to_hsv r g b =
      (if minc = maxc then Inr (0, 0, maxc)
       else if maxc = 0 \<or> rangec = 0 then Inl ZeroDivisionError
       else Inr (hue_of r g b maxc rangec, fdiv rangec maxc, maxc))"
    unfolding colorsys_rgb_to_hsv_def maxc_def minc_def rangec_def Let_def ..
  show ?thesis
  proof (cases "minc = maxc")
    case True
    with unfold mx show ?thesis by simp
  next
    case False
    with le have lt: "minc < maxc" by simp
    have rpos: "0 < rangec" unfolding rangec_def using lt by (rule range_pos)
    have rle: "rangec \<le> maxc" unfolding rangec_def by (rule range_le_max [OF mn lt rep])
    have mpos: "0 < maxc" using lt mn by simp
    note S = ratio_unit [OF rpos rle]
    have H: "0 \<le> hue_of r g b maxc rangec \<and> hue_of r g b maxc rangec \<le> 1"
      unfolding hue_of_def Let_def by (rule py_mod1_range)
    have "colorsys_rgb_to_hsv r g b = Inr (hue_of r g b maxc rangec, fdiv rangec maxc, maxc)"
      using unfold False mpos rpos by simp
    with H S mx show ?thesis by simp
  qed
qed

text \<open>
  The divisor \<^verbatim>\<open>2.0-sumc\<close>: when the two extreme channels are at least \<open>1/256\<close>
  apart, it is positive and the range exceeds it by less than three parts in a thousand, so
  the saturation may pass 1 but stays below 1.004.
\<close>

lemma range_le_old:
  assumes mn: "0 \<le> mn" and mx: "mx \<le> 1" and gap: "1 / 256 \<le> mx - mn"
  shows "0 < fsub 2 (fadd mx mn)"
    and "fsub mx mn \<le> fsub 2 (fadd mx mn) * (1003 / 1000)"
proof -
  define D where "D = mx - mn"
  define S where "S = mx + mn"
  define T where "T = 2 - fl S"
  have D: "1 / 256 \<le> D" "D \<le> 1" using gap mn mx by (simp_all add: D_def)
  have S: "0 \<le> S" "S \<le> 511 / 256" using gap mn mx by (simp_all add: S_def)
  have p: "pow2 (- 8) = 1 / 256" by (simp add: pow2_def)
  have r511: "fl (511 / 256) = 511 / 256" using fl_repr [of 511 "- 8"] by (simp add: p)
  have flS: "fl S \<le> 511 / 256" using fl_between(2) [OF S _ fl_zero r511] by simp
  have "fl S \<le> S * (1 + 1 / 2 ^ 53)" using S(1) by (rule fl_upper)
  also have "\<dots> \<le> S + 2 / 2 ^ 53" using S(2) by (simp add: algebra_simps)
  finally have "2 - S - 2 / 2 ^ 53 \<le> T" by (simp add: T_def)
  moreover have "D \<le> 2 - S" using mx by (simp add: D_def S_def)
  ultimately have "D - 2 / 2 ^ 53 \<le> T" by simp
  moreover have "D * (1 - 512 / 2 ^ 53) \<le> D - 2 / 2 ^ 53" using D(1) by (simp add: algebra_simps)
  ultimately have T1: "D * (1 - 512 / 2 ^ 53) \<le> T" by simp
  have T0: "1 / 256 \<le> T" using flS by (simp add: T_def)
  then have Tn: "0 \<le> T" by simp
  have "0 < fl T" using T0 by (intro fl_pos) simp
  then show "0 < fsub 2 (fadd mx mn)" by (simp add: fsub_def fadd_def T_def S_def)
  have "D * (1 - 512 / 2 ^ 53) * (1 - 1 / 2 ^ 53) \<le> T * (1 - 1 / 2 ^ 53)"
    using T1 by (intro mult_right_mono) simp_all
  also have "\<dots> \<le> fl T" using Tn by (rule fl_lower)
  finally have d: "D * (1 - 512 / 2 ^ 53) * (1 - 1 / 2 ^ 53) \<le> fl T" .
  have D0: "0 \<le> D" using D(1) by simp
  have "fl D \<le> D * (1 + 1 / 2 ^ 53)" using D0 by (rule fl_upper)
  also have "\<dots> \<le> D * ((1 - 512 / 2 ^ 53) * (1 - 1 / 2 ^ 53) * (1003 / 1000))"
    using D0 by (intro mult_left_mono) simp_all
  also have "\<dots> = D * (1 - 512 / 2 ^ 53) * (1 - 1 / 2 ^ 53) * (1003 / 1000)" by simp
  also have "\<dots> \<le> fl T * (1003 / 1000)" using d by (intro mult_right_mono) simp_all
  finally show "fsub mx mn \<le> fsub 2 (fadd mx mn) * (1003 / 1000)"
    by (simp add: fsub_def fadd_def T_def S_def D_def)
qed

lemma ratio_near_unit:
  assumes "0 < x" "0 < d" "x \<le> d * (1003 / 1000)"
  shows "0 \<le> fdiv x d" and "fdiv x d \<le> 251 / 250"
proof -
  have q: "0 \<le> x / d" "x / d \<le> 1003 / 1000"
    using assms by (simp_all add: divide_le_eq mult.commute)
  show "0 \<le> fdiv x d" unfolding fdiv_def using q(1) by (rule fl_nonneg)
  have "fl (x / d) \<le> x / d * (1 + 1 / 2 ^ 53)" using q(1) by (rule fl_upper)
  also have "\<dots> \<le> 1003 / 1000 * (1 + 1 / 2 ^ 53)"
    using q(2) by (intro mult_right_mono) simp_all
  also have "\<dots> \<le> 251 / 250" by simp
  finally show "fdiv x d \<le> 251 / 250" by (simp add: fdiv_def)
qed

lemma percent_round_range:
  assumes "0 \<le> x" "x \<le> 251 / 250"
  shows "0 \<le> py_round (fmul x 100)" and "py_round (fmul x 100) \<le> 100"
proof -
  have a: "0 \<le> x * 100" using assms(1) by simp
  have "of_int 0 \<le> fmul x 100" unfolding fmul_def using fl_nonneg [OF a] by simp
  then show "0 \<le> py_round (fmul x 100)" by (rule py_round_ge)
  have "fl (x * 100) \<le> x * 100 * (1 + 1 / 2 ^ 53)" using a by (rule fl_upper)
  also have "\<dots> \<le> 251 / 250 * 100 * (1 + 1 / 2 ^ 53)"
    using assms(2) by (intro mult_right_mono) simp_all
  also have "\<dots> < of_int 100 + 1 / 2" by simp
  finally have "fmul x 100 < of_int 100 + 1 / 2" by (simp add: fmul_def)
  then show "py_round (fmul x 100) \<le> 100" by (rule py_round_le)
qed

lemma colorsys_rgb_to_hls_unit:
  assumes "0 \<le> r" "r \<le> 1" "0 \<le> g" "g \<le> 1" "0 \<le> b" "b \<le> 1"
    and "fl r = r" "fl g = g" "fl b = b"
    and gap: "min r (min g b) = max r (max g b)
              \<or> 1 / 256 \<le> max r (max g b) - min r (min g b)"
  shows "\<exists>h l s. colorsys_rgb_to_hls v r g b = Inr (h, l, s)
           \<and> 0 \<le> h \<and> h \<le> 1 \<and> 0 \<le> l \<and> l \<le> 1 \<and> 0 \<le> s \<and> s \<le> 251 / 250"
proof -
  define maxc where "maxc = max r (max g b)"
  define minc where "minc = min r (min g b)"
  define rangec where "rangec = fsub maxc minc"
  define l where "l = fdiv (fadd maxc minc) 2"
  define d where "d = (if l \<le> 1 / 2 then fadd maxc minc
                       else if v then fsub (fsub 2 maxc) minc else fsub 2 (fadd maxc minc))"
  have mx: "0 \<le> maxc" "maxc \<le> 1" and mn: "0 \<le> minc" and le: "minc \<le> maxc"
    unfolding maxc_def minc_def using assms(1-6) by linarith+
  have rep: "fl maxc = maxc"
    unfolding maxc_def using assms(7-9) by (rule fl_max3)
  have lu: "0 \<le> l" "l \<le> 1"
    unfolding l_def using lightness_unit [OF mn le mx(2)] by simp_all
  have unfold: "colorsys_rgb_to_hls v r g b =
      (if minc = maxc then Inr (0, l, 0)
       else if d = 0 \<or> rangec = 0 then Inl ZeroDivisionError
       else Inr (hue_of r g b maxc rangec, l, fdiv rangec d))"
    unfolding colorsys_rgb_to_hls_def maxc_def minc_def rangec_def l_def d_def Let_def ..
  show ?thesis
  proof (cases "minc = maxc")
    case True
    with unfold lu show ?thesis by simp
  next
    case False
    with le have lt: "minc < maxc" by simp
    from False gap have g256: "1 / 256 \<le> maxc - minc" by (simp add: maxc_def minc_def)
    have rpos: "0 < rangec" unfolding rangec_def using lt by (rule range_pos)
    note O = range_le_old [OF mn mx(2) g256]
    have "rangec \<le> fadd maxc minc" unfolding rangec_def by (rule range_le_sum [OF mn lt])
    moreover have "rangec \<le> fsub (fsub 2 maxc) minc"
      unfolding rangec_def by (rule range_le_rest [OF mn lt mx(2) rep])
    ultimately have dpos: "0 < d" using rpos O(1) by (simp add: d_def)
    have dd: "rangec \<le> d * (1003 / 1000)"
    proof -
      have "d \<le> d * (1003 / 1000)" using dpos by simp
      moreover have "rangec \<le> d \<or> rangec \<le> d * (1003 / 1000)"
        using \<open>rangec \<le> fadd maxc minc\<close> \<open>rangec \<le> fsub (fsub 2 maxc) minc\<close> O(2)
        by (simp add: d_def rangec_def)
      ultimately show ?thesis by linarith
    qed
    note S = ratio_near_unit [OF rpos dpos dd]
    have H: "0 \<le> hue_of r g b maxc rangec \<and> hue_of r g b maxc rangec \<le> 1"
      unfolding hue_of_def Let_def by (rule py_mod1_range)
    have "colorsys_rgb_to_hls v r g b = Inr (hue_of r g b maxc rangec, l, fdiv rangec d)"
      using unfold False dpos rpos by simp
    with H S lu show ?thesis by simp
  qed
qed

lemma rgb_to_hsv_range:
  assumes "0 \<le> r" "r \<le> 255" "0 \<le> g" "g \<le> 255" "0 \<le> b" "b \<le> 255"
  shows "\<exists>h s v. rgb_to_hsv (r, g, b) = Inr (h, s, v)
           \<and> 0 \<le> h \<and> h \<le> 360 \<and> 0 \<le> s \<and> s \<le> 100 \<and> 0 \<le> v \<and> v \<le> 100"
proof -
  note R = channel_unit [OF assms(1,2)] and G = channel_unit [OF assms(3,4)]
    and B = channel_unit [OF assms(5,6)]
  from colorsys_rgb_to_hsv_unit [OF R(1,2) G(1,2) B(1,2) R(3) G(3) B(3)]
  obtain h s v where c: "colorsys_rgb_to_hsv (fdiv (of_int r) 255) (fdiv (of_int g) 255)
        (fdiv (of_int b) 255) = Inr (h, s, v)"
    and h: "0 \<le> h" "h \<le> 1" and s: "0 \<le> s" "s \<le> 1" and v: "0 \<le> v" "v \<le> 1"
    by blast
  have e: "rgb_to_hsv (r, g, b)
             = Inr (py_round (fmul h 360), py_round (fmul s 100), py_round (fmul v 100))"
    by (simp add: rgb_to_hsv_def rgb_list_def c)
  show ?thesis
    using scaled_round_range [OF h, of 360] scaled_round_range [OF s, of 100]
      scaled_round_range [OF v, of 100]
    by (simp add: e)
qed

lemma rgb_to_hsl_range:
  assumes "0 \<le> r" "r \<le> 255" "0 \<le> g" "g \<le> 255" "0 \<le> b" "b \<le> 255"
  shows "\<exists>h s l. rgb_to_hsl v (r, g, b) = Inr (h, s, l)
           \<and> 0 \<le> h \<and> h \<le> 360 \<and> 0 \<le> s \<and> s \<le> 100 \<and> 0 \<le> l \<and> l \<le> 100"
proof -
  note R = channel_unit [OF assms(1,2)] and G = channel_unit [OF assms(3,4)]
    and B = channel_unit [OF assms(5,6)]
  define R' where "R' = fdiv (of_int r) 255"
  define G' where "G' = fdiv (of_int g) 255"
  define B' where "B' = fdiv (of_int b) 255"
  define hi where "hi = max r (max g b)"
  define lo where "lo = min r (min g b)"
  have hi: "0 \<le> hi" "hi \<le> 255" and lo: "0 \<le> lo" "lo \<le> 255"
    unfolding hi_def lo_def using assms by linarith+
  have mxe: "max R' (max G' B') = fdiv (of_int hi) 255"
    unfolding R'_def G'_def B'_def hi_def by (rule channel_max3 [OF assms(1,3,5)])
  have mne: "min R' (min G' B') = fdiv (of_int lo) 255"
    unfolding R'_def G'_def B'_def lo_def by (rule channel_min3 [OF assms(1,3,5)])
  have le: "min R' (min G' B') \<le> max R' (max G' B')" by (rule min3_le_max3)
  have gap: "min R' (min G' B') = max R' (max G' B')
              \<or> 1 / 256 \<le> max R' (max G' B') - min R' (min G' B')"
  proof (cases "min R' (min G' B') = max R' (max G' B')")
    case True
    then show ?thesis ..
  next
    case False
    with le have "fdiv (of_int lo) 255 < fdiv (of_int hi) 255" by (simp add: mxe mne)
    from channel_gap [OF lo hi this] show ?thesis by (simp add: mxe mne)
  qed
  from colorsys_rgb_to_hls_unit [OF R(1,2) G(1,2) B(1,2) R(3) G(3) B(3), folded R'_def G'_def B'_def,
      OF gap, of v]
  obtain h l s where c: "colorsys_rgb_to_hls v R' G' B' = Inr (h, l, s)"
    and h: "0 \<le> h" "h \<le> 1" and l: "0 \<le> l" "l \<le> 1" and s: "0 \<le> s" "s \<le> 251 / 250"
    by blast
  have e: "rgb_to_hsl v (r, g, b)
             = Inr (py_round (fmul h 360), py_round (fmul s 100), py_round (fmul l 100))"
    using c by (simp add: rgb_to_hsl_def rgb_list_def R'_def G'_def B'_def)
  show ?thesis
    using scaled_round_range [OF h, of 360] percent_round_range [OF s]
      scaled_round_range [OF l, of 100]
    by (simp add: e)
qed

lemma key_range:
  assumes "1 / 256 \<le> M" "M \<le> 1"
  shows "0 \<le> fsub 1 M" and "fsub 1 M \<le> 255 / 256"
proof -
  have p: "pow2 (- 8) = 1 / 256" by (simp add: pow2_def)
  have r: "fl (255 / 256) = 255 / 256" using fl_repr [of 255 "- 8"] by (simp add: p)
  have a: "0 \<le> 1 - M" "1 - M \<le> 255 / 256" using assms by simp_all
  show "0 \<le> fsub 1 M" "fsub 1 M \<le> 255 / 256"
    unfolding fsub_def using fl_between [OF a _ fl_zero r] by simp_all
qed

lemma cmyk_part_range:
  assumes x: "0 \<le> x" "x \<le> M" and M: "1 / 256 \<le> M" "M \<le> 1"
  shows "0 \<le> cmyk_part x (fsub 1 M)" and "cmyk_part x (fsub 1 M) \<le> 100"
proof -
  define k where "k = fsub 1 M"
  define D where "D = fsub 1 k"
  define t where "t = fsub 1 x"
  define N where "N = fsub t k"
  define P where "P = fmul N 100"
  define Q where "Q = fdiv P D"
  define eps :: rat where "eps = 1 / 2 ^ 53"
  note K = key_range [OF M, folded k_def]
  have D1: "1 / 256 \<le> 1 - k" using K(2) by simp
  have Dpos: "0 < D"
    unfolding D_def fsub_def by (rule fl_pos) (use D1 in simp)
  have tk: "k \<le> t"
    unfolding k_def t_def fsub_def using x M by (intro fl_mono) simp_all
  have t1: "t \<le> 1"
    unfolding t_def fsub_def using fl_unit(2) [of "1 - x"] x M by simp
  have N0: "0 \<le> N" unfolding N_def fsub_def using tk by (intro fl_nonneg) simp
  have ND: "N \<le> D"
    unfolding N_def D_def fsub_def using tk t1 by (intro fl_mono) simp_all
  have P0: "0 \<le> P" unfolding P_def fmul_def using N0 by (intro fl_nonneg) simp
  have "P \<le> N * 100 * (1 + eps)"
    unfolding P_def fmul_def eps_def using N0 by (intro fl_upper) simp
  also have "\<dots> \<le> D * 100 * (1 + eps)"
    using ND by (simp add: eps_def)
  finally have PD: "P \<le> D * 100 * (1 + eps)" .
  have q0: "0 \<le> P / D" using P0 Dpos by simp
  have "P / D \<le> 100 * (1 + eps)"
    using PD Dpos by (simp add: divide_le_eq algebra_simps)
  moreover have "Q \<le> P / D * (1 + eps)"
    unfolding Q_def fdiv_def eps_def using q0 by (rule fl_upper)
  moreover have "0 < 1 + eps" by (simp add: eps_def)
  ultimately have "Q \<le> 100 * (1 + eps) * (1 + eps)"
    by (meson mult_right_mono less_imp_le order_trans)
  also have "\<dots> < 100 + 1 / 2" by (simp add: eps_def)
  finally have Qu: "Q < of_int 100 + 1 / 2" by simp
  have Q0: "of_int 0 \<le> Q" unfolding Q_def fdiv_def using fl_nonneg [OF q0] by simp
  have e: "cmyk_part x (fsub 1 M) = py_round Q"
    by (simp add: cmyk_part_def Q_def P_def N_def t_def D_def k_def)
  show "0 \<le> cmyk_part x (fsub 1 M)" unfolding e using Q0 by (rule py_round_ge)
  show "cmyk_part x (fsub 1 M) \<le> 100" unfolding e using Qu by (rule py_round_le)
qed

lemma key_percent_range:
  assumes M: "1 / 256 \<le> M" "M \<le> 1"
  shows "0 \<le> py_round (fmul (fsub 1 M) 100)" and "py_round (fmul (fsub 1 M) 100) \<le> 100"
proof -
  note K = key_range [OF M]
  have k1: "fsub 1 M \<le> 1" using K(2) by simp
  from scaled_round_range [OF K(1) k1, of 100]
  show "0 \<le> py_round (fmul (fsub 1 M) 100)" "py_round (fmul (fsub 1 M) 100) \<le> 100"
    by simp_all
qed

lemma rgb_to_cmyk_floats:
  assumes r: "0 \<le> r" "r \<le> M" and g: "0 \<le> g" "g \<le> M" and b: "0 \<le> b" "b \<le> M"
    and M: "1 / 256 \<le> M" "M \<le> 1" and nz: "\<not> (r = 0 \<and> g = 0 \<and> b = 0)"
    and mx: "max r (max g b) = M"
  shows "\<exists>c m y k.
           (if r = 0 \<and> g = 0 \<and> b = 0 then Inr (0, 0, 0, 100)
            else let k = fsub 1 (max r (max g b))
                 in if fsub 1 k = 0 then Inl ZeroDivisionError
                    else Inr (cmyk_part r k, cmyk_part g k, cmyk_part b k, py_round (fmul k 100)))
           = (Inr (c, m, y, k) :: py_error + int \<times> int \<times> int \<times> int)
           \<and> 0 \<le> c \<and> c \<le> 100 \<and> 0 \<le> m \<and> m \<le> 100 \<and> 0 \<le> y \<and> y \<le> 100
           \<and> 0 \<le> k \<and> k \<le> 100"
proof -
  note K = key_range [OF M]
  have "1 / 256 \<le> 1 - fsub 1 M" using K(2) by simp
  then have "0 < fl (1 - fsub 1 M)" by (intro fl_pos) simp
  then have D: "fsub 1 (fsub 1 M) \<noteq> 0" by (simp add: fsub_def)
  show ?thesis
    using nz D cmyk_part_range [OF r M] cmyk_part_range [OF g M] cmyk_part_range [OF b M]
      key_percent_range [OF M]
    by (simp add: mx Let_def)
qed

lemma rgb_to_cmyk_range:
  assumes "0 \<le> r" "r \<le> 255" "0 \<le> g" "g \<le> 255" "0 \<le> b" "b \<le> 255"
  shows "\<exists>c m y k. rgb_to_cmyk (r, g, b) = Inr (c, m, y, k)
           \<and> 0 \<le> c \<and> c \<le> 100 \<and> 0 \<le> m \<and> m \<le> 100 \<and> 0 \<le> y \<and> y \<le> 100
           \<and> 0 \<le> k \<and> k \<le> 100"
proof (cases "r = 0 \<and> g = 0 \<and> b = 0")
  case True
  then show ?thesis by (simp add: rgb_to_cmyk_def rgb_list_def channel_zero)
next
  case False
  define R where "R = fdiv (of_int r) 255"
  define G where "G = fdiv (of_int g) 255"
  define B where "B = fdiv (of_int b) 255"
  define M where "M = max R (max G B)"
  note cr = channel_unit [OF assms(1,2), folded R_def]
    and cg = channel_unit [OF assms(3,4), folded G_def]
    and cb = channel_unit [OF assms(5,6), folded B_def]
  have le: "R \<le> M" "G \<le> M" "B \<le> M" unfolding M_def by linarith+
  have M1: "M \<le> 1" unfolding M_def using cr(2) cg(2) cb(2) by linarith
  from False assms have "1 \<le> r \<or> 1 \<le> g \<or> 1 \<le> b" by linarith
  then have "1 / 256 \<le> R \<or> 1 / 256 \<le> G \<or> 1 / 256 \<le> B"
    unfolding R_def G_def B_def using channel_pos by blast
  then have Mlo: "1 / 256 \<le> M" using le by linarith
  then have nz: "\<not> (R = 0 \<and> G = 0 \<and> B = 0)" unfolding M_def by linarith
  have e: "rgb_to_cmyk (r, g, b) =
      (if R = 0 \<and> G = 0 \<and> B = 0 then Inr (0, 0, 0, 100)
       else let k = fsub 1 (max R (max G B))
            in if fsub 1 k = 0 then Inl ZeroDivisionError
               else Inr (cmyk_part R k, cmyk_part G k, cmyk_part B k, py_round (fmul k 100)))"
    unfolding rgb_to_cmyk_def rgb_list_def R_def G_def B_def by simp
  show ?thesis
    unfolding e
    by (rule rgb_to_cmyk_floats [OF cr(1) le(1) cg(1) le(2) cb(1) le(3) Mlo M1 nz M_def [symmetric]])
qed

text \<open>
  Claim C8. For every RGB triple with each channel in [0,255] the derived representations
  exist (no conversion raises) and lie in their documented ranges: the hue of HSV and HSL in
  [0,360], saturation, value and lightness in [0,100], and the four CMYK components in
  [0,100]. The rounding steps never take a value out of its range. This holds for both forms
  of \<^verbatim>\<open>colorsys.rgb_to_hls\<close>; with the divisor \<^verbatim>\<open>2.0-sumc\<close> the float saturation
  can pass 1, and the rounding to a percentage brings it back to at most 100.
\<close>

theorem derived_in_range:
  assumes "0 \<le> r" "r \<le> 255" "0 \<le> g" "g \<le> 255" "0 \<le> b" "b \<le> 255"
  shows "(\<exists>h s v. rgb_to_hsv (r, g, b) = Inr (h, s, v)
            \<and> 0 \<le> h \<and> h \<le> 360 \<and> 0 \<le> s \<and> s \<le> 100 \<and> 0 \<le> v \<and> v \<le> 100)
       \<and> (\<exists>h s l. rgb_to_hsl gh106498 (r, g, b) = Inr (h, s, l)
            \<and> 0 \<le> h \<and> h \<le> 360 \<and> 0 \<le> s \<and> s \<le> 100 \<and> 0 \<le> l \<and> l \<le> 100)
       \<and> (\<exists>c m y k. rgb_to_cmyk (r, g, b) = Inr (c, m, y, k)
            \<and> 0 \<le> c \<and> c \<le> 100 \<and> 0 \<le> m \<and> m \<le> 100 \<and> 0 \<le> y \<and> y \<le> 100
            \<and> 0 \<le> k \<and> k \<le> 100)"
  using rgb_to_hsv_range [OF assms] rgb_to_hsl_range [OF assms] rgb_to_cmyk_range [OF assms]
  by (intro conjI)

theorem derived_in_range_witness:
  "(\<exists>h s v. rgb_to_hsv (255, 0, 1) = Inr (h, s, v) \<and> 0 \<le> h \<and> h \<le> 360)
   \<and> (\<exists>h s l. rgb_to_hsl False (255, 9, 9) = Inr (h, s, l) \<and> 0 \<le> s \<and> s \<le> 100)
   \<and> (\<exists>h s l. rgb_to_hsl True (255, 9, 9) = Inr (h, s, l) \<and> 0 \<le> s \<and> s \<le> 100)
   \<and> (\<exists>c m y k. rgb_to_cmyk (255, 0, 1) = Inr (c, m, y, k) \<and> 0 \<le> k \<and> k \<le> 100)"
  using derived_in_range [of 255 0 1 False] derived_in_range [of 255 9 9 False]
    derived_in_range [of 255 9 9 True]
  by (simp del: split_paired_Ex) blast

subsection \<open>The CMYK command\<close>

lemma prod_err:
  fixes w v W V :: rat
  assumes "\<bar>w - W\<bar> \<le> ew" "\<bar>v - V\<bar> \<le> ev" "\<bar>v\<bar> \<le> 1" "\<bar>W\<bar> \<le> B"
  shows "\<bar>w * v - W * V\<bar> \<le> ew + B * ev"
proof -
  have "w * v - W * V = (w - W) * v + W * (v - V)" by (simp add: algebra_simps)
  then have "\<bar>w * v - W * V\<bar> \<le> \<bar>(w - W) * v\<bar> + \<bar>W * (v - V)\<bar>"
    by (simp only: abs_triangle_ineq)
  also have "\<bar>(w - W) * v\<bar> \<le> ew * 1"
    unfolding abs_mult using assms(1,3) by (intro mult_mono) simp_all
  also have "\<bar>W * (v - V)\<bar> \<le> B * ev"
    unfolding abs_mult using assms(2,4) by (intro mult_mono) simp_all
  finally show ?thesis by simp
qed

lemma percent_complement:
  assumes "0 \<le> n" "n \<le> 100"
  shows "0 \<le> fsub 1 (fdiv (of_int n) 100)" and "fsub 1 (fdiv (of_int n) 100) \<le> 1"
    and "\<bar>fsub 1 (fdiv (of_int n) 100) - (1 - of_int n / 100)\<bar> \<le> 2 / 2 ^ 53"
proof -
  define a where "a = fdiv (of_int n) 100"
  have q: "(0::rat) \<le> of_int n / 100" "(of_int n :: rat) / 100 \<le> 1" using assms by simp_all
  have a: "0 \<le> a" "a \<le> 1" unfolding a_def fdiv_def using fl_unit [OF q] by simp_all
  have ea: "\<bar>a - of_int n / 100\<bar> \<le> 1 / 2 ^ 53"
    unfolding a_def fdiv_def by (rule fl_err_le [OF q])
  have c: "0 \<le> 1 - a" "1 - a \<le> 1" using a by simp_all
  have "\<bar>fl (1 - a) - (1 - a)\<bar> \<le> 1 / 2 ^ 53" by (rule fl_err_le [OF c])
  with ea show "\<bar>fsub 1 (fdiv (of_int n) 100) - (1 - of_int n / 100)\<bar> \<le> 2 / 2 ^ 53"
    unfolding a_def [symmetric] fsub_def by linarith
  show "0 \<le> fsub 1 (fdiv (of_int n) 100)" "fsub 1 (fdiv (of_int n) 100) \<le> 1"
    unfolding a_def [symmetric] fsub_def using fl_unit [OF c] by simp_all
qed

lemma cmyk_product_close:
  assumes "0 \<le> x" "x \<le> 100" "0 \<le> k" "k \<le> 100"
  shows "\<bar>fmul (fmul 255 (fsub 1 (fdiv (of_int x) 100))) (fsub 1 (fdiv (of_int k) 100))
           - 255 * (1 - of_int x / 100) * (1 - of_int k / 100)\<bar> \<le> 1 / 2 ^ 42"
proof -
  define u where "u = fsub 1 (fdiv (of_int x) 100)"
  define v where "v = fsub 1 (fdiv (of_int k) 100)"
  define w where "w = fmul 255 u"
  define W :: rat where "W = 255 * (1 - of_int x / 100)"
  define V :: rat where "V = 1 - of_int k / 100"
  note U = percent_complement [OF assms(1,2), folded u_def]
  note Vv = percent_complement [OF assms(3,4), folded v_def]
  have r255: "fl 255 = 255" using fl_of_int [of 255] by simp
  have u255: "0 \<le> 255 * u" "255 * u \<le> 255" using U(1,2) by simp_all
  have w: "0 \<le> w" "w \<le> 255"
    unfolding w_def fmul_def using fl_between [OF u255 _ fl_zero r255] by simp_all
  have "\<bar>w - 255 * u\<bar> \<le> 255 / 2 ^ 53"
    unfolding w_def fmul_def by (rule fl_err_le [OF u255])
  moreover have "\<bar>255 * u - W\<bar> \<le> 510 / 2 ^ 53"
  proof -
    define z where "z = u - (1 - of_int x / 100)"
    have "255 * u - W = 255 * z" by (simp add: W_def z_def algebra_simps)
    then have "\<bar>255 * u - W\<bar> = \<bar>255 * z\<bar>" by (rule arg_cong)
    also have "\<dots> = 255 * \<bar>z\<bar>" by (simp add: abs_mult)
    finally show ?thesis using U(3) by (simp add: z_def)
  qed
  ultimately have ew: "\<bar>w - W\<bar> \<le> 765 / 2 ^ 53" by linarith
  have absv: "\<bar>v\<bar> \<le> 1" using Vv(1,2) by simp
  have W0: "0 \<le> W" "W \<le> 255" using assms(1,2) by (simp_all add: W_def)
  then have absW: "\<bar>W\<bar> \<le> 255" by simp
  have pe: "\<bar>w * v - W * V\<bar> \<le> 765 / 2 ^ 53 + 255 * (2 / 2 ^ 53)"
    using Vv(3) by (intro prod_err [OF ew _ absv absW]) (simp add: V_def)
  have wv: "0 \<le> w * v" "w * v \<le> 255"
    using w Vv(1,2) mult_mono [of w 255 v 1] by simp_all
  have "\<bar>fl (w * v) - w * v\<bar> \<le> 255 / 2 ^ 53" by (rule fl_err_le [OF wv])
  moreover have "\<bar>fl (w * v) - W * V\<bar> \<le> \<bar>fl (w * v) - w * v\<bar> + \<bar>w * v - W * V\<bar>"
    by linarith
  ultimately have "\<bar>fl (w * v) - W * V\<bar> \<le> 1 / 2 ^ 42" using pe by simp
  then show ?thesis by (simp add: fmul_def w_def u_def v_def W_def V_def)
qed

lemma cmyk_channel_close:
  assumes "0 \<le> x" "x \<le> 100" "0 \<le> k" "k \<le> 100"
  shows "\<bar>of_int (cmyk_channel x k) - (255 * (1 - of_int x / 100) * (1 - of_int k / 100) :: rat)\<bar>
           \<le> 1 / 2 + 1 / 2 ^ 42"
proof -
  let ?p = "fmul (fmul 255 (fsub 1 (fdiv (of_int x) 100))) (fsub 1 (fdiv (of_int k) 100))"
  have "\<bar>of_int (cmyk_channel x k) - ?p\<bar> \<le> 1 / 2"
    unfolding cmyk_channel_def py_round_def by (rule rhe_err)
  with cmyk_product_close [OF assms] show ?thesis by linarith
qed

lemma cmyk_channel_key_100: "cmyk_channel x 100 = 0"
proof -
  have "fdiv (of_int 100) 100 = 1" by (simp add: fdiv_def fl_one)
  then have "fsub 1 (fdiv (of_int 100) 100) = 0" by (simp add: fsub_def fl_zero)
  then show ?thesis by (simp add: cmyk_channel_def fmul_def fl_zero py_round_zero)
qed

text \<open>
  Claim C7. For CMYK fields in [0,100] the command returns, for each of cyan, magenta and
  yellow, the float product \<^verbatim>\<open>255 * (1 - X/100) * (1 - k/100)\<close> rounded to an integer; that
  integer is within a half (and a float error below \<open>2^-42\<close>) of the exact product. With key
  100 the result is exactly (0,0,0) whatever the other fields are. The only divisions are by the
  constant 100, so the command never raises \<^verbatim>\<open>ZeroDivisionError\<close>.
\<close>

theorem cmyk_cmd_formula:
  assumes "0 \<le> c" "c \<le> 100" "0 \<le> m" "m \<le> 100" "0 \<le> y" "y \<le> 100" "0 \<le> k" "k \<le> 100"
  shows "cmyk_cmd c m y k = Inr (cmyk_channel c k, cmyk_channel m k, cmyk_channel y k)
     \<and> cmyk_channel c k =
         py_round (fmul (fmul 255 (fsub 1 (fdiv (of_int c) 100))) (fsub 1 (fdiv (of_int k) 100)))
     \<and> \<bar>of_int (cmyk_channel c k) - (255 * (1 - of_int c / 100) * (1 - of_int k / 100) :: rat)\<bar>
          \<le> 1 / 2 + 1 / 2 ^ 42
     \<and> \<bar>of_int (cmyk_channel m k) - (255 * (1 - of_int m / 100) * (1 - of_int k / 100) :: rat)\<bar>
          \<le> 1 / 2 + 1 / 2 ^ 42
     \<and> \<bar>of_int (cmyk_channel y k) - (255 * (1 - of_int y / 100) * (1 - of_int k / 100) :: rat)\<bar>
          \<le> 1 / 2 + 1 / 2 ^ 42
     \<and> cmyk_cmd c m y 100 = Inr (0, 0, 0)
     \<and> cmyk_cmd c m y k \<noteq> Inl ZeroDivisionError"
proof -
  have 1: "cmyk_cmd c m y k = Inr (cmyk_channel c k, cmyk_channel m k, cmyk_channel y k)"
    using assms by (simp add: cmyk_cmd_def in_range_def)
  have 2: "cmyk_cmd c m y 100 = Inr (0, 0, 0)"
    using assms by (simp add: cmyk_cmd_def in_range_def cmyk_channel_key_100)
  show ?thesis
    using 1 2 cmyk_channel_close [OF assms(1,2,7,8)] cmyk_channel_close [OF assms(3,4,7,8)]
      cmyk_channel_close [OF assms(5,6,7,8)]
    by (simp add: cmyk_channel_def)
qed

theorem cmyk_cmd_formula_witness:
  "cmyk_cmd 12 34 56 100 = Inr (0, 0, 0)"
proof -
  have h: "(0::int) \<le> 12" "(12::int) \<le> 100" "(0::int) \<le> 34" "(34::int) \<le> 100"
    "(0::int) \<le> 56" "(56::int) \<le> 100" "(0::int) \<le> 100" "(100::int) \<le> 100"
    by simp_all
  from cmyk_cmd_formula [OF h] show ?thesis by blast
qed

subsection \<open>The CMYK round trip\<close>

lemma quot_err:
  fixes P D P0 D0 :: rat
  assumes P: "\<bar>P - P0\<bar> \<le> eP" and D: "\<bar>D - D0\<bar> \<le> eD"
    and d: "0 < d" "d \<le> D" and D0: "0 < D0" and P0: "0 \<le> P0" "P0 \<le> c * D0"
  shows "\<bar>P / D - P0 / D0\<bar> \<le> (eP + c * eD) / d"
proof -
  define rho where "rho = P0 / D0"
  have rho: "0 \<le> rho" "rho \<le> c"
    using P0 D0 by (simp_all add: rho_def divide_le_eq)
  have Dpos: "0 < D" using d by simp
  have P0eq: "P0 = rho * D0" using D0 by (simp add: rho_def)
  have "P / D - rho = ((P - P0) - rho * (D - D0)) / D"
    using Dpos by (simp add: P0eq field_simps)
  then have q: "\<bar>P / D - rho\<bar> = \<bar>(P - P0) - rho * (D - D0)\<bar> / D"
    using Dpos by (simp add: abs_divide)
  have "\<bar>(P - P0) - rho * (D - D0)\<bar> \<le> \<bar>P - P0\<bar> + \<bar>rho * (D - D0)\<bar>"
    by (rule abs_triangle_ineq4)
  moreover have "\<bar>rho * (D - D0)\<bar> \<le> c * eD"
    unfolding abs_mult using rho D by (intro mult_mono) simp_all
  ultimately have num: "\<bar>(P - P0) - rho * (D - D0)\<bar> \<le> eP + c * eD"
    using P by linarith
  note q
  also have "\<bar>(P - P0) - rho * (D - D0)\<bar> / D \<le> (eP + c * eD) / D"
    using num Dpos by (intro divide_right_mono) simp_all
  also have "\<dots> \<le> (eP + c * eD) / d"
  proof -
    have "0 \<le> eP" using P by linarith
    moreover have "0 \<le> eD" using D by linarith
    moreover have "0 \<le> c" using rho by linarith
    ultimately have "0 \<le> eP + c * eD" by simp
    then show ?thesis using d by (intro divide_left_mono) simp_all
  qed
  finally show ?thesis by (simp add: rho_def)
qed

text \<open>The forward direction: the quotient that is rounded to a percentage is within
  \<open>2^-35\<close> of \<open>100 (max - x) / max\<close>, and the key within \<open>2^-35\<close> of \<open>100 (1 - max / 255)\<close>.\<close>

lemma cmyk_part_close:
  assumes x: "0 \<le> x" "x \<le> mx" and mx: "1 \<le> mx" "mx \<le> 255"
  shows "\<bar>of_int (cmyk_part (fdiv (of_int x) 255) (fsub 1 (fdiv (of_int mx) 255)))
           - (100 * (of_int mx - of_int x) / of_int mx :: rat)\<bar> \<le> 1 / 2 + 1 / 2 ^ 35"
proof -
  define eps :: rat where "eps = 1 / 2 ^ 53"
  define X where "X = fdiv (of_int x) 255"
  define M where "M = fdiv (of_int mx) 255"
  define k where "k = fsub 1 M"
  define D where "D = fsub 1 k"
  define t where "t = fsub 1 X"
  define N where "N = fsub t k"
  define P where "P = fmul N 100"
  define Q where "Q = fdiv P D"
  define x' :: rat where "x' = of_int x / 255"
  define m' :: rat where "m' = of_int mx / 255"
  have x255: "x \<le> 255" and mx0: "0 \<le> mx" using x mx by simp_all
  have eX: "\<bar>X - x'\<bar> \<le> eps"
    unfolding X_def x'_def eps_def by (rule channel_close [OF x(1) x255])
  have eM: "\<bar>M - m'\<bar> \<le> eps"
    unfolding M_def m'_def eps_def by (rule channel_close [OF mx0 mx(2)])
  have X01: "0 \<le> X" "X \<le> 1" unfolding X_def using channel_unit [OF x(1) x255] by simp_all
  have M1: "M \<le> 1" unfolding M_def using channel_unit [OF mx0 mx(2)] by simp
  have Mlo: "1 / 256 \<le> M" unfolding M_def by (rule channel_pos [OF mx(1)])
  have XM: "X \<le> M" unfolding X_def M_def by (rule channel_mono [OF x])
  note K = key_range [OF Mlo M1, folded k_def]
  have ek: "\<bar>k - (1 - M)\<bar> \<le> eps"
    unfolding k_def fsub_def eps_def using Mlo M1 by (intro fl_err_unit) simp_all
  have D1: "1 / 256 \<le> 1 - k" "1 - k \<le> 1" using K by simp_all
  have eD: "\<bar>D - (1 - k)\<bar> \<le> eps"
    unfolding D_def fsub_def eps_def using D1 by (intro fl_err_unit) simp_all
  have Dlo: "1 / 256 \<le> D"
    unfolding D_def fsub_def using fl_mono [of "1 / 256" "1 - k"] D1(1) by (simp add: fl_256)
  have t1: "0 \<le> 1 - X" "1 - X \<le> 1" using X01 by simp_all
  have et: "\<bar>t - (1 - X)\<bar> \<le> eps"
    unfolding t_def fsub_def eps_def using t1 by (intro fl_err_unit) simp_all
  have tk: "k \<le> t"
    unfolding k_def t_def fsub_def using XM M1 by (intro fl_mono) simp_all
  have tle: "t \<le> 1" unfolding t_def fsub_def using fl_unit(2) [OF t1] .
  have n1: "0 \<le> t - k" "t - k \<le> 1" using tk tle K(1) by simp_all
  have eN: "\<bar>N - (t - k)\<bar> \<le> eps"
    unfolding N_def fsub_def eps_def using n1 by (intro fl_err_unit) simp_all
  have N01: "0 \<le> N" "N \<le> 1" unfolding N_def fsub_def using fl_unit [OF n1] by simp_all
  have ND: "N \<le> D"
    unfolding N_def D_def fsub_def using tk tle by (intro fl_mono) simp_all
  have p1: "0 \<le> N * 100" "N * 100 \<le> 100" using N01 by simp_all
  have eP: "\<bar>P - N * 100\<bar> \<le> 100 * eps"
    unfolding P_def fmul_def eps_def using fl_err_le [OF p1] by simp
  have P0: "0 \<le> P" unfolding P_def fmul_def using p1(1) by (rule fl_nonneg)
  have "P \<le> N * 100 * (1 + 1 / 2 ^ 53)"
    unfolding P_def fmul_def using p1(1) by (rule fl_upper)
  also have "\<dots> \<le> D * 100 * (1 + 1 / 2 ^ 53)" using ND by simp
  also have "\<dots> \<le> D * 101" using Dlo by simp
  finally have PD: "P \<le> D * 101" .
  have Dpos: "0 < D" using Dlo by simp
  have q1: "0 \<le> P / D" "P / D \<le> 101" using P0 PD Dpos by (simp_all add: divide_le_eq)
  have eQ: "\<bar>Q - P / D\<bar> \<le> 101 * eps"
    unfolding Q_def fdiv_def eps_def using fl_err_le [OF q1] by simp
  text \<open>the exact counterparts\<close>
  define P0' :: rat where "P0' = 100 * (m' - x')"
  have eN': "\<bar>N - (m' - x')\<bar> \<le> 5 * eps"
    using eN et ek eX eM unfolding abs_le_iff by (auto simp: algebra_simps)
  have eP': "\<bar>P - P0'\<bar> \<le> 600 * eps"
    unfolding P0'_def using eP eN' unfolding abs_le_iff by (auto simp: algebra_simps)
  have eD': "\<bar>D - m'\<bar> \<le> 3 * eps" using eD ek eM unfolding abs_le_iff by (auto simp: algebra_simps)
  have m'pos: "0 < m'" using mx(1) by (simp add: m'_def)
  have P0'0: "0 \<le> P0'" using x(2) by (simp add: P0'_def m'_def x'_def divide_right_mono)
  have P0'le: "P0' \<le> 100 * m'" using x(1) by (simp add: P0'_def x'_def)
  have d256: "(0::rat) < 1 / 256" by simp
  have "\<bar>P / D - P0' / m'\<bar> \<le> (600 * eps + 100 * (3 * eps)) / (1 / 256)"
    by (rule quot_err [OF eP' eD' d256 Dlo m'pos P0'0 P0'le])
  with eQ have "\<bar>Q - P0' / m'\<bar> \<le> 101 * eps + (600 * eps + 100 * (3 * eps)) / (1 / 256)"
    by linarith
  also have "\<dots> \<le> 1 / 2 ^ 35" by (simp add: eps_def)
  finally have close: "\<bar>Q - P0' / m'\<bar> \<le> 1 / 2 ^ 35" .
  have ratio: "P0' / m' = 100 * (of_int mx - of_int x) / of_int mx"
    using mx(1) by (simp add: P0'_def m'_def x'_def field_simps)
  have r: "\<bar>of_int (py_round Q) - Q\<bar> \<le> 1 / 2"
    unfolding py_round_def by (rule rhe_err)
  have e: "cmyk_part (fdiv (of_int x) 255) (fsub 1 (fdiv (of_int mx) 255)) = py_round Q"
    by (simp add: cmyk_part_def Q_def P_def N_def t_def D_def k_def X_def M_def)
  show ?thesis unfolding e ratio [symmetric] using r close by linarith
qed

lemma key_close:
  assumes mx: "1 \<le> mx" "mx \<le> 255"
  shows "\<bar>of_int (py_round (fmul (fsub 1 (fdiv (of_int mx) 255)) 100))
           - (100 * (1 - of_int mx / 255) :: rat)\<bar> \<le> 1 / 2 + 1 / 2 ^ 35"
proof -
  define eps :: rat where "eps = 1 / 2 ^ 53"
  define M where "M = fdiv (of_int mx) 255"
  define k where "k = fsub 1 M"
  define m' :: rat where "m' = of_int mx / 255"
  have mx0: "0 \<le> mx" using mx by simp
  have eM: "\<bar>M - m'\<bar> \<le> eps"
    unfolding M_def m'_def eps_def by (rule channel_close [OF mx0 mx(2)])
  have M1: "M \<le> 1" unfolding M_def using channel_unit [OF mx0 mx(2)] by simp
  have Mlo: "1 / 256 \<le> M" unfolding M_def by (rule channel_pos [OF mx(1)])
  note K = key_range [OF Mlo M1, folded k_def]
  have ek: "\<bar>k - (1 - M)\<bar> \<le> eps"
    unfolding k_def fsub_def eps_def using Mlo M1 by (intro fl_err_unit) simp_all
  have p1: "0 \<le> k * 100" "k * 100 \<le> 100" using K by simp_all
  have eP: "\<bar>fmul k 100 - k * 100\<bar> \<le> 100 * eps"
    unfolding fmul_def eps_def using fl_err_le [OF p1] by simp
  have r: "\<bar>of_int (py_round (fmul k 100)) - fmul k 100\<bar> \<le> 1 / 2"
    unfolding py_round_def by (rule rhe_err)
  have "\<bar>of_int (py_round (fmul k 100)) - 100 * (1 - m')\<bar> \<le> 1 / 2 + 300 * eps"
    using r eP ek eM unfolding abs_le_iff by (auto simp: algebra_simps)
  also have "\<dots> \<le> 1 / 2 + 1 / 2 ^ 35" by (simp add: eps_def)
  finally show ?thesis by (simp add: k_def M_def m'_def)
qed

text \<open>The way back. The real-number estimate alone gives 3.05; where it exceeds 3 the
  key is at most 3 and the percentage at most 4, and these twenty cases are settled on the
  integers.\<close>

lemma int_le_of_rat:
  fixes a b :: int and e :: rat
  assumes "of_int a \<le> of_int b + e" "e < 1"
  shows "a \<le> b"
proof -
  from assms have "(of_int a :: rat) < of_int b + 1" by linarith
  then have "(of_int a :: rat) < of_int (b + 1)" by simp
  then have "a < b + 1" by (simp only: of_int_less_iff)
  then show ?thesis by simp
qed

lemma prod_err_gen:
  fixes w v W V :: rat
  assumes "\<bar>w - W\<bar> \<le> e" "\<bar>v - V\<bar> \<le> e" "0 \<le> v" "0 \<le> W"
  shows "\<bar>w * v - W * V\<bar> \<le> e * (v + W)"
proof -
  have "w * v - W * V = (w - W) * v + W * (v - V)" by (simp add: algebra_simps)
  then have "\<bar>w * v - W * V\<bar> \<le> \<bar>(w - W) * v\<bar> + \<bar>W * (v - V)\<bar>"
    by (simp only: abs_triangle_ineq)
  also have "\<bar>(w - W) * v\<bar> \<le> e * v"
    unfolding abs_mult using assms(1,3) by (intro mult_mono) simp_all
  also have "\<bar>W * (v - V)\<bar> \<le> W * e"
    unfolding abs_mult using assms(2,4) by (intro mult_mono) simp_all
  finally show ?thesis by (simp add: algebra_simps)
qed

lemma cmyk_small_cases:
  fixes c K x mx T :: int
  assumes K: "0 \<le> K" "K \<le> 3" and c: "0 \<le> c" "c \<le> 4"
    and x: "x \<le> mx" and mx: "mx \<le> 255"
    and e1: "199 * mx \<le> 200 * x + 2 * (c * mx)" "200 * x + 2 * (c * mx) \<le> 201 * mx"
    and e2: "25373 \<le> 255 * K + 100 * mx" "255 * K + 100 * mx \<le> 25627"
    and e3: "2545000 + 255 * (c * K) \<le> 10000 * T + 25500 * c + 25500 * K"
      "10000 * T + 25500 * c + 25500 * K \<le> 2555000 + 255 * (c * K)"
  shows "\<bar>T - x\<bar> \<le> 2"
proof -
  have Kc: "K = 0 \<or> K = 1 \<or> K = 2 \<or> K = 3" using K by linarith
  have cc: "c = 0 \<or> c = 1 \<or> c = 2 \<or> c = 3 \<or> c = 4" using c by linarith
  have k0: ?thesis if k: "K = 0"
  proof -
    have m: "254 \<le> mx" "mx \<le> 255" using e2 mx unfolding k by linarith+
    have c0: ?thesis if cv: "c = 0"
    proof -
      have "2545000 \<le> 10000 * T" "10000 * T \<le> 2555000" using e3 unfolding k cv by simp_all
      then have t: "T = 255" by linarith
      have "199 * mx \<le> 200 * x" "200 * x \<le> 201 * mx" using e1 unfolding cv by simp_all
      then have "253 \<le> x" "x \<le> 255" using m x by linarith+
      then show ?thesis unfolding t by linarith
    qed
    have c1: ?thesis if cv: "c = 1"
    proof -
      have "2519500 \<le> 10000 * T" "10000 * T \<le> 2529500" using e3 unfolding k cv by simp_all
      then have t: "T = 252" by linarith
      have "197 * mx \<le> 200 * x" "200 * x \<le> 199 * mx" using e1 unfolding cv by simp_all
      then have "251 \<le> x" "x \<le> 253" using m x by linarith+
      then show ?thesis unfolding t by linarith
    qed
    have c2: ?thesis if cv: "c = 2"
    proof -
      have "2494000 \<le> 10000 * T" "10000 * T \<le> 2504000" using e3 unfolding k cv by simp_all
      then have t: "T = 250" by linarith
      have "195 * mx \<le> 200 * x" "200 * x \<le> 197 * mx" using e1 unfolding cv by simp_all
      then have "248 \<le> x" "x \<le> 251" using m x by linarith+
      then show ?thesis unfolding t by linarith
    qed
    have c3: ?thesis if cv: "c = 3"
    proof -
      have "2468500 \<le> 10000 * T" "10000 * T \<le> 2478500" using e3 unfolding k cv by simp_all
      then have t: "T = 247" by linarith
      have "193 * mx \<le> 200 * x" "200 * x \<le> 195 * mx" using e1 unfolding cv by simp_all
      then have "246 \<le> x" "x \<le> 248" using m x by linarith+
      then show ?thesis unfolding t by linarith
    qed
    have c4: ?thesis if cv: "c = 4"
    proof -
      have "2443000 \<le> 10000 * T" "10000 * T \<le> 2453000" using e3 unfolding k cv by simp_all
      then have t: "T = 245" by linarith
      have "191 * mx \<le> 200 * x" "200 * x \<le> 193 * mx" using e1 unfolding cv by simp_all
      then have "243 \<le> x" "x \<le> 246" using m x by linarith+
      then show ?thesis unfolding t by linarith
    qed
    from cc c0 c1 c2 c3 c4 show ?thesis by blast
  qed
  have k1: ?thesis if k: "K = 1"
  proof -
    have m: "252 \<le> mx" "mx \<le> 253" using e2 mx unfolding k by linarith+
    have c0: ?thesis if cv: "c = 0"
    proof -
      have "2519500 \<le> 10000 * T" "10000 * T \<le> 2529500" using e3 unfolding k cv by simp_all
      then have t: "T = 252" by linarith
      have "199 * mx \<le> 200 * x" "200 * x \<le> 201 * mx" using e1 unfolding cv by simp_all
      then have "251 \<le> x" "x \<le> 253" using m x by linarith+
      then show ?thesis unfolding t by linarith
    qed
    have c1: ?thesis if cv: "c = 1"
    proof -
      have "2494255 \<le> 10000 * T" "10000 * T \<le> 2504255" using e3 unfolding k cv by simp_all
      then have t: "T = 250" by linarith
      have "197 * mx \<le> 200 * x" "200 * x \<le> 199 * mx" using e1 unfolding cv by simp_all
      then have "249 \<le> x" "x \<le> 251" using m x by linarith+
      then show ?thesis unfolding t by linarith
    qed
    have c2: ?thesis if cv: "c = 2"
    proof -
      have "2469010 \<le> 10000 * T" "10000 * T \<le> 2479010" using e3 unfolding k cv by simp_all
      then have t: "T = 247" by linarith
      have "195 * mx \<le> 200 * x" "200 * x \<le> 197 * mx" using e1 unfolding cv by simp_all
      then have "246 \<le> x" "x \<le> 249" using m x by linarith+
      then show ?thesis unfolding t by linarith
    qed
    have c3: ?thesis if cv: "c = 3"
    proof -
      have "2443765 \<le> 10000 * T" "10000 * T \<le> 2453765" using e3 unfolding k cv by simp_all
      then have t: "T = 245" by linarith
      have "193 * mx \<le> 200 * x" "200 * x \<le> 195 * mx" using e1 unfolding cv by simp_all
      then have "244 \<le> x" "x \<le> 246" using m x by linarith+
      then show ?thesis unfolding t by linarith
    qed
    have c4: ?thesis if cv: "c = 4"
    proof -
      have "2418520 \<le> 10000 * T" "10000 * T \<le> 2428520" using e3 unfolding k cv by simp_all
      then have t: "T = 242" by linarith
      have "191 * mx \<le> 200 * x" "200 * x \<le> 193 * mx" using e1 unfolding cv by simp_all
      then have "241 \<le> x" "x \<le> 244" using m x by linarith+
      then show ?thesis unfolding t by linarith
    qed
    from cc c0 c1 c2 c3 c4 show ?thesis by blast
  qed
  have k2: ?thesis if k: "K = 2"
  proof -
    have m: "249 \<le> mx" "mx \<le> 251" using e2 mx unfolding k by linarith+
    have c0: ?thesis if cv: "c = 0"
    proof -
      have "2494000 \<le> 10000 * T" "10000 * T \<le> 2504000" using e3 unfolding k cv by simp_all
      then have t: "T = 250" by linarith
      have "199 * mx \<le> 200 * x" "200 * x \<le> 201 * mx" using e1 unfolding cv by simp_all
      then have "248 \<le> x" "x \<le> 251" using m x by linarith+
      then show ?thesis unfolding t by linarith
    qed
    have c1: ?thesis if cv: "c = 1"
    proof -
      have "2469010 \<le> 10000 * T" "10000 * T \<le> 2479010" using e3 unfolding k cv by simp_all
      then have t: "T = 247" by linarith
      have "197 * mx \<le> 200 * x" "200 * x \<le> 199 * mx" using e1 unfolding cv by simp_all
      then have "246 \<le> x" "x \<le> 249" using m x by linarith+
      then show ?thesis unfolding t by linarith
    qed
    have c2: ?thesis if cv: "c = 2"
    proof -
      have "2444020 \<le> 10000 * T" "10000 * T \<le> 2454020" using e3 unfolding k cv by simp_all
      then have t: "T = 245" by linarith
      have "195 * mx \<le> 200 * x" "200 * x \<le> 197 * mx" using e1 unfolding cv by simp_all
      then have "243 \<le> x" "x \<le> 247" using m x by linarith+
      then show ?thesis unfolding t by linarith
    qed
    have c3: ?thesis if cv: "c = 3"
    proof -
      have "2419030 \<le> 10000 * T" "10000 * T \<le> 2429030" using e3 unfolding k cv by simp_all
      then have t: "T = 242" by linarith
      have "193 * mx \<le> 200 * x" "200 * x \<le> 195 * mx" using e1 unfolding cv by simp_all
      then have "241 \<le> x" "x \<le> 244" using m x by linarith+
      then show ?thesis unfolding t by linarith
    qed
    have c4: ?thesis if cv: "c = 4"
    proof -
      have "2394040 \<le> 10000 * T" "10000 * T \<le> 2404040" using e3 unfolding k cv by simp_all
      then have t: "T = 240" by linarith
      have "191 * mx \<le> 200 * x" "200 * x \<le> 193 * mx" using e1 unfolding cv by simp_all
      then have "238 \<le> x" "x \<le> 242" using m x by linarith+
      then show ?thesis unfolding t by linarith
    qed
    from cc c0 c1 c2 c3 c4 show ?thesis by blast
  qed
  have k3: ?thesis if k: "K = 3"
  proof -
    have m: "247 \<le> mx" "mx \<le> 248" using e2 mx unfolding k by linarith+
    have c0: ?thesis if cv: "c = 0"
    proof -
      have "2468500 \<le> 10000 * T" "10000 * T \<le> 2478500" using e3 unfolding k cv by simp_all
      then have t: "T = 247" by linarith
      have "199 * mx \<le> 200 * x" "200 * x \<le> 201 * mx" using e1 unfolding cv by simp_all
      then have "246 \<le> x" "x \<le> 248" using m x by linarith+
      then show ?thesis unfolding t by linarith
    qed
    have c1: ?thesis if cv: "c = 1"
    proof -
      have "2443765 \<le> 10000 * T" "10000 * T \<le> 2453765" using e3 unfolding k cv by simp_all
      then have t: "T = 245" by linarith
      have "197 * mx \<le> 200 * x" "200 * x \<le> 199 * mx" using e1 unfolding cv by simp_all
      then have "244 \<le> x" "x \<le> 246" using m x by linarith+
      then show ?thesis unfolding t by linarith
    qed
    have c2: ?thesis if cv: "c = 2"
    proof -
      have "2419030 \<le> 10000 * T" "10000 * T \<le> 2429030" using e3 unfolding k cv by simp_all
      then have t: "T = 242" by linarith
      have "195 * mx \<le> 200 * x" "200 * x \<le> 197 * mx" using e1 unfolding cv by simp_all
      then have "241 \<le> x" "x \<le> 244" using m x by linarith+
      then show ?thesis unfolding t by linarith
    qed
    have c3: ?thesis if cv: "c = 3"
    proof -
      have "2394295 \<le> 10000 * T" "10000 * T \<le> 2404295" using e3 unfolding k cv by simp_all
      then have t: "T = 240" by linarith
      have "193 * mx \<le> 200 * x" "200 * x \<le> 195 * mx" using e1 unfolding cv by simp_all
      then have "239 \<le> x" "x \<le> 241" using m x by linarith+
      then show ?thesis unfolding t by linarith
    qed
    have c4: ?thesis if cv: "c = 4"
    proof -
      have "2369560 \<le> 10000 * T" "10000 * T \<le> 2379560" using e3 unfolding k cv by simp_all
      then have t: "T = 237" by linarith
      have "191 * mx \<le> 200 * x" "200 * x \<le> 193 * mx" using e1 unfolding cv by simp_all
      then have "236 \<le> x" "x \<le> 239" using m x by linarith+
      then show ?thesis unfolding t by linarith
    qed
    from cc c0 c1 c2 c3 c4 show ?thesis by blast
  qed
  from Kc k0 k1 k2 k3 show ?thesis by blast
qed

lemma cmyk_back_close:
  assumes c: "0 \<le> c" "c \<le> 100" and K: "0 \<le> K" "K \<le> 100"
    and x: "0 \<le> x" "x \<le> mx" and mx: "1 \<le> mx" "mx \<le> 255"
    and ec: "\<bar>of_int c - (100 * (of_int mx - of_int x) / of_int mx :: rat)\<bar> \<le> 1 / 2 + 1 / 2 ^ 35"
    and eK: "\<bar>of_int K - (100 * (1 - of_int mx / 255) :: rat)\<bar> \<le> 1 / 2 + 1 / 2 ^ 35"
  shows "\<bar>cmyk_channel c K - x\<bar> \<le> 2"
proof -
  define dl :: rat where "dl = 1 / 2 ^ 35"
  define dt :: rat where "dt = 1 / 2 ^ 42"
  define h :: rat where "h = 1 / 2 + dl"
  define e1 :: rat where "e1 = h / 100"
  define C :: rat where "C = of_int c"
  define M :: rat where "M = of_int mx"
  define X :: rat where "X = of_int x"
  define Kq :: rat where "Kq = of_int K"
  define T where "T = cmyk_channel c K"
  define Tq :: rat where "Tq = of_int T"
  define w :: rat where "w = 1 - C / 100"
  define v :: rat where "v = 1 - Kq / 100"
  define W :: rat where "W = X / M"
  define V :: rat where "V = M / 255"
  define zc :: rat where "zc = C - 100 * (M - X) / M"
  define zk :: rat where "zk = Kq - 100 * (1 - M / 255)"
  have dl: "0 \<le> dl" "510 * dl < 1" "1 / 2 + 255 * dl < 1" by (simp_all add: dl_def)
  have dt: "0 \<le> dt" "10000 * dt < 1" by (simp_all add: dt_def)
  have h: "0 \<le> h" "h = 1 / 2 + dl" using dl(1) by (simp_all add: h_def)
  have e1: "0 \<le> e1" using h(1) by (simp add: e1_def)
  have Mr: "1 \<le> M" "M \<le> 255" using mx by (simp_all add: M_def)
  have Mpos: "0 < M" using Mr by simp
  have Xr: "0 \<le> X" "X \<le> M" using x by (simp_all add: X_def M_def)
  have Cr: "0 \<le> C" "C \<le> 100" using c by (simp_all add: C_def)
  have Kr: "0 \<le> Kq" "Kq \<le> 100" using K by (simp_all add: Kq_def)
  have zc: "\<bar>zc\<bar> \<le> h" using ec by (simp only: zc_def C_def M_def X_def h_def dl_def)
  have zk: "\<bar>zk\<bar> \<le> h" using eK by (simp only: zk_def Kq_def M_def h_def dl_def)
  have W1: "(M - X) / M = 1 - W" using Mpos by (simp add: W_def diff_divide_distrib)
  have zcW: "zc = C - 100 * (1 - W)" unfolding zc_def W1 [symmetric] by simp
  have zkV: "zk = Kq - 100 * (1 - V)" unfolding zk_def V_def ..
  have "w - W = - zc / 100" unfolding zcW w_def by simp
  then have "\<bar>w - W\<bar> = \<bar>- zc / 100\<bar>" by (rule arg_cong)
  then have "\<bar>w - W\<bar> = \<bar>zc\<bar> / 100" by simp
  with zc have ew: "\<bar>w - W\<bar> \<le> e1" by (simp add: e1_def)
  have "v - V = - zk / 100" unfolding zkV v_def by simp
  then have "\<bar>v - V\<bar> = \<bar>- zk / 100\<bar>" by (rule arg_cong)
  then have "\<bar>v - V\<bar> = \<bar>zk\<bar> / 100" by simp
  with zk have ev: "\<bar>v - V\<bar> \<le> e1" by (simp add: e1_def)
  have v01: "0 \<le> v" "v \<le> 1" using Kr by (simp_all add: v_def)
  have W01: "0 \<le> W" "W \<le> 1" using Xr Mpos by (simp_all add: W_def)
  have pe: "\<bar>w * v - W * V\<bar> \<le> e1 * (v + W)"
    by (rule prod_err_gen [OF ew ev v01(1) W01(1)])
  have WV: "W * V = X / 255" using Mpos by (simp add: W_def V_def)
  define p :: rat where "p = 255 * (w * v)"
  have x255: "X = 255 * (W * V)" unfolding WV by simp
  define d where "d = w * v - W * V"
  have "255 * d = p - 255 * (W * V)"
    unfolding p_def d_def by (simp only: right_diff_distrib)
  then have "255 * d = p - X" by (simp only: x255 [symmetric])
  then have "\<bar>p - X\<bar> = \<bar>255 * d\<bar>" by simp
  then have "\<bar>p - X\<bar> = 255 * \<bar>d\<bar>" by (simp add: abs_mult)
  with pe have px: "\<bar>p - X\<bar> \<le> 255 * (e1 * (v + W))" by (simp add: d_def)
  have pq: "255 * (1 - of_int c / 100) * (1 - of_int K / 100) = p"
    unfolding p_def w_def v_def C_def Kq_def by (simp only: mult.assoc)
  have rp: "\<bar>Tq - p\<bar> \<le> 1 / 2 + dt"
    using cmyk_channel_close [OF c K] unfolding pq Tq_def T_def dt_def .
  show ?thesis
  proof (cases "v + W \<le> 49 / 25")
    case True
    have "e1 * (v + W) \<le> e1 * (49 / 25)" using True e1 by (rule mult_left_mono)
    with px have "\<bar>p - X\<bar> \<le> 255 * (e1 * (49 / 25))" by linarith
    with rp have "\<bar>Tq - X\<bar> \<le> 1 / 2 + dt + 255 * (e1 * (49 / 25))" by linarith
    also have "\<dots> < 3" by (simp add: e1_def h_def dl_def dt_def)
    finally have "\<bar>(of_int (T - x) :: rat)\<bar> < of_int 3" by (simp add: Tq_def X_def)
    then have "\<bar>T - x\<bar> < 3"
      by (simp only: of_int_abs [symmetric] of_int_less_iff)
    then show ?thesis by (simp add: T_def)
  next
    case False
    then have vW: "24 / 25 < v" "24 / 25 < W" using v01 W01 by linarith+
    have "Kq < 4" using vW(1) unfolding v_def by linarith
    then have "K < 4" by (simp add: Kq_def)
    then have K3: "K \<le> 3" by simp
    have "C - 100 + 100 * W \<le> h" using zc unfolding zcW by (simp add: abs_le_iff algebra_simps)
    then have "C < 5" using vW(2) dl(3) unfolding h(2) by linarith
    then have "c < 5" by (simp add: C_def)
    then have c4: "c \<le> 4" by simp
    text \<open>the three estimates, cleared of their denominators\<close>
    define CM where "CM = C * M"
    define CK where "CK = C * Kq"
    have "100 * (M - X) / M * M = 100 * (M - X)" using Mpos by simp
    then have qM: "zc * M = CM - 100 * M + 100 * X"
      unfolding zc_def CM_def by (simp add: left_diff_distrib right_diff_distrib)
    have "\<bar>zc * M\<bar> = \<bar>zc\<bar> * M" using Mpos by (simp add: abs_mult)
    also have "\<dots> \<le> h * M" using zc Mpos by (intro mult_right_mono) simp_all
    finally have zM: "\<bar>CM - 100 * M + 100 * X\<bar> \<le> h * M" unfolding qM .
    have "dl * M \<le> dl * 255" using Mr(2) dl(1) by (rule mult_left_mono)
    moreover have "h * M = M / 2 + dl * M" unfolding h(2) by (simp add: algebra_simps)
    ultimately have hM: "h * M \<le> M / 2 + 255 * dl" by simp
    have l1: "199 * M \<le> 200 * X + 2 * CM + 510 * dl" "200 * X + 2 * CM \<le> 201 * M + 510 * dl"
      using zM hM by linarith+
    have k255: "255 * zk = 255 * Kq - 25500 + 100 * M"
      unfolding zk_def by (simp add: algebra_simps)
    have l2: "25373 \<le> 255 * Kq + 100 * M + (1 / 2 + 255 * dl)"
      "255 * Kq + 100 * M \<le> 25627 + (1 / 2 + 255 * dl)"
      using zk k255 unfolding h(2) by linarith+
    have p10: "10000 * p = 2550000 - 25500 * C - 25500 * Kq + 255 * CK"
      unfolding p_def w_def v_def CK_def by (simp add: algebra_simps)
    have l3: "2545000 + 255 * CK \<le> 10000 * Tq + 25500 * C + 25500 * Kq + 10000 * dt"
      "10000 * Tq + 25500 * C + 25500 * Kq \<le> 2555000 + 255 * CK + 10000 * dt"
      using rp p10 by linarith+
    have o1: "of_int (199 * mx) = 199 * M" "of_int (200 * x + 2 * (c * mx)) = 200 * X + 2 * CM"
      "of_int (201 * mx) = 201 * M"
      by (simp_all add: M_def X_def CM_def C_def)
    have o2: "of_int 25373 = (25373 :: rat)" "of_int (255 * K + 100 * mx) = 255 * Kq + 100 * M"
      "of_int 25627 = (25627 :: rat)"
      by (simp_all add: M_def Kq_def)
    have o3: "of_int (2545000 + 255 * (c * K)) = 2545000 + 255 * CK"
      "of_int (10000 * T + 25500 * c + 25500 * K) = 10000 * Tq + 25500 * C + 25500 * Kq"
      "of_int (2555000 + 255 * (c * K)) = 2555000 + 255 * CK"
      by (simp_all add: Tq_def C_def Kq_def CK_def)
    have i1: "199 * mx \<le> 200 * x + 2 * (c * mx)"
      by (rule int_le_of_rat [OF _ dl(2)]) (use l1(1) in \<open>simp only: o1\<close>)
    have i2: "200 * x + 2 * (c * mx) \<le> 201 * mx"
      by (rule int_le_of_rat [OF _ dl(2)]) (use l1(2) in \<open>simp only: o1\<close>)
    have i3: "25373 \<le> 255 * K + 100 * mx"
      by (rule int_le_of_rat [OF _ dl(3)]) (use l2(1) in \<open>simp only: o2\<close>)
    have i4: "255 * K + 100 * mx \<le> 25627"
      by (rule int_le_of_rat [OF _ dl(3)]) (use l2(2) in \<open>simp only: o2\<close>)
    have i5: "2545000 + 255 * (c * K) \<le> 10000 * T + 25500 * c + 25500 * K"
      by (rule int_le_of_rat [OF _ dt(2)]) (use l3(1) in \<open>simp only: o3\<close>)
    have i6: "10000 * T + 25500 * c + 25500 * K \<le> 2555000 + 255 * (c * K)"
      by (rule int_le_of_rat [OF _ dt(2)]) (use l3(2) in \<open>simp only: o3\<close>)
    have "\<bar>T - x\<bar> \<le> 2"
      by (rule cmyk_small_cases [OF K(1) K3 c(1) c4 x(2) mx(2) i1 i2 i3 i4 i5 i6])
    then show ?thesis by (simp add: T_def)
  qed
qed

lemma rgb_to_cmyk_explicit:
  assumes "0 \<le> r" "r \<le> 255" "0 \<le> g" "g \<le> 255" "0 \<le> b" "b \<le> 255"
    and nz: "\<not> (r = 0 \<and> g = 0 \<and> b = 0)"
  shows "rgb_to_cmyk (r, g, b) =
           (let k = fsub 1 (fdiv (of_int (max r (max g b))) 255)
            in Inr (cmyk_part (fdiv (of_int r) 255) k, cmyk_part (fdiv (of_int g) 255) k,
                    cmyk_part (fdiv (of_int b) 255) k, py_round (fmul k 100)))"
proof -
  define R where "R = fdiv (of_int r) 255"
  define G where "G = fdiv (of_int g) 255"
  define B where "B = fdiv (of_int b) 255"
  define mx where "mx = max r (max g b)"
  define M where "M = fdiv (of_int mx) 255"
  have mxr: "1 \<le> mx" "mx \<le> 255" "0 \<le> mx" using assms unfolding mx_def by linarith+
  have maxM: "max R (max G B) = M"
    unfolding R_def G_def B_def M_def mx_def by (rule channel_max3 [OF assms(1,3,5)])
  have Mlo: "1 / 256 \<le> M" unfolding M_def by (rule channel_pos [OF mxr(1)])
  have M1: "M \<le> 1" unfolding M_def using channel_unit [OF mxr(3,2)] by simp
  have "R \<le> M \<and> G \<le> M \<and> B \<le> M" using maxM by linarith
  have nzf: "\<not> (R = 0 \<and> G = 0 \<and> B = 0)" using maxM Mlo by linarith
  note K = key_range [OF Mlo M1]
  have "1 / 256 \<le> 1 - fsub 1 M" using K(2) by simp
  then have "0 < fl (1 - fsub 1 M)" by (intro fl_pos) simp
  then have D: "fsub 1 (fsub 1 M) \<noteq> 0" by (simp add: fsub_def)
  have "rgb_to_cmyk (r, g, b) =
      (if R = 0 \<and> G = 0 \<and> B = 0 then Inr (0, 0, 0, 100)
       else let k = fsub 1 (max R (max G B))
            in if fsub 1 k = 0 then Inl ZeroDivisionError
               else Inr (cmyk_part R k, cmyk_part G k, cmyk_part B k, py_round (fmul k 100)))"
    unfolding rgb_to_cmyk_def rgb_list_def R_def G_def B_def by simp
  also have "\<dots> = Inr (cmyk_part R (fsub 1 M), cmyk_part G (fsub 1 M), cmyk_part B (fsub 1 M),
                      py_round (fmul (fsub 1 M) 100))"
    unfolding Let_def maxM if_not_P [OF nzf] if_not_P [OF D] ..
  finally show ?thesis by (simp add: Let_def R_def G_def B_def M_def mx_def)
qed

lemma cmyk_channel_round_trip:
  assumes x: "0 \<le> x" "x \<le> mx" and mx: "1 \<le> mx" "mx \<le> 255"
  shows "\<bar>cmyk_channel (cmyk_part (fdiv (of_int x) 255) (fsub 1 (fdiv (of_int mx) 255)))
                        (py_round (fmul (fsub 1 (fdiv (of_int mx) 255)) 100)) - x\<bar> \<le> 2"
    and "in_range 101 (cmyk_part (fdiv (of_int x) 255) (fsub 1 (fdiv (of_int mx) 255)))"
    and "in_range 101 (py_round (fmul (fsub 1 (fdiv (of_int mx) 255)) 100))"
proof -
  define X where "X = fdiv (of_int x) 255"
  define M where "M = fdiv (of_int mx) 255"
  have x255: "x \<le> 255" and mx0: "0 \<le> mx" using x mx by simp_all
  have X0: "0 \<le> X" unfolding X_def using channel_unit [OF x(1) x255] by simp
  have M1: "M \<le> 1" unfolding M_def using channel_unit [OF mx0 mx(2)] by simp
  have Mlo: "1 / 256 \<le> M" unfolding M_def by (rule channel_pos [OF mx(1)])
  have XM: "X \<le> M" unfolding X_def M_def by (rule channel_mono [OF x])
  note C = cmyk_part_range [OF X0 XM Mlo M1]
  note K = key_percent_range [OF Mlo M1]
  show "\<bar>cmyk_channel (cmyk_part (fdiv (of_int x) 255) (fsub 1 (fdiv (of_int mx) 255)))
                        (py_round (fmul (fsub 1 (fdiv (of_int mx) 255)) 100)) - x\<bar> \<le> 2"
    using cmyk_back_close [OF C K x mx cmyk_part_close [OF x mx, folded X_def M_def]
        key_close [OF mx, folded M_def]]
    by (simp add: X_def M_def)
  show "in_range 101 (cmyk_part (fdiv (of_int x) 255) (fsub 1 (fdiv (of_int mx) 255)))"
    using C by (simp add: in_range_def X_def M_def)
  show "in_range 101 (py_round (fmul (fsub 1 (fdiv (of_int mx) 255)) 100))"
    using K by (simp add: in_range_def M_def)
qed

lemma cmyk_round_trip_close:
  assumes "0 \<le> r" "r \<le> 255" "0 \<le> g" "g \<le> 255" "0 \<le> b" "b \<le> 255"
  shows "\<exists>r' g' b'. cmyk_round_trip (r, g, b) = Inr (r', g', b')
           \<and> \<bar>r - r'\<bar> \<le> 2 \<and> \<bar>g - g'\<bar> \<le> 2 \<and> \<bar>b - b'\<bar> \<le> 2"
proof (cases "r = 0 \<and> g = 0 \<and> b = 0")
  case True
  then have "rgb_to_cmyk (r, g, b) = Inr (0, 0, 0, 100)"
    by (simp add: rgb_to_cmyk_def rgb_list_def channel_zero)
  then have "cmyk_round_trip (r, g, b) = Inr (0, 0, 0)"
    by (simp add: cmyk_round_trip_def cmyk_cmd_def in_range_def cmyk_channel_key_100)
  with True show ?thesis by simp
next
  case False
  define mx where "mx = max r (max g b)"
  have mxr: "1 \<le> mx" "mx \<le> 255" and le: "r \<le> mx" "g \<le> mx" "b \<le> mx"
    using assms False unfolding mx_def by linarith+
  define K where "K = py_round (fmul (fsub 1 (fdiv (of_int mx) 255)) 100)"
  define c where "c = cmyk_part (fdiv (of_int r) 255) (fsub 1 (fdiv (of_int mx) 255))"
  define m where "m = cmyk_part (fdiv (of_int g) 255) (fsub 1 (fdiv (of_int mx) 255))"
  define y where "y = cmyk_part (fdiv (of_int b) 255) (fsub 1 (fdiv (of_int mx) 255))"
  note Rr = cmyk_channel_round_trip [OF assms(1) le(1) mxr, folded K_def c_def]
  note Gg = cmyk_channel_round_trip [OF assms(3) le(2) mxr, folded K_def m_def]
  note Bb = cmyk_channel_round_trip [OF assms(5) le(3) mxr, folded K_def y_def]
  have "rgb_to_cmyk (r, g, b) = Inr (c, m, y, K)"
    using rgb_to_cmyk_explicit [OF assms False]
    by (simp add: Let_def c_def m_def y_def K_def mx_def)
  then have "cmyk_round_trip (r, g, b) = Inr (cmyk_channel c K, cmyk_channel m K, cmyk_channel y K)"
    using Rr(2,3) Gg(2) Bb(2) by (simp add: cmyk_round_trip_def cmyk_cmd_def)
  moreover have "\<bar>r - cmyk_channel c K\<bar> \<le> 2" using Rr(1) by simp
  moreover have "\<bar>g - cmyk_channel m K\<bar> \<le> 2" using Gg(1) by simp
  moreover have "\<bar>b - cmyk_channel y K\<bar> \<le> 2" using Bb(1) by simp
  ultimately show ?thesis by simp
qed

lemma rgb_to_cmyk_black: "rgb_to_cmyk (0, 0, 0) = Inr (0, 0, 0, 100)"
  by (simp add: rgb_to_cmyk_def rgb_list_def channel_zero)

text \<open>
  Claim C2, the bound as stated. The round trip through CMYK does not stay within 1 of every
  channel: (149, 148, 0) becomes (0, 1, 100, 42) and comes back as (148, 146, 0), so green is
  off by 2.
\<close>

theorem cmyk_round_trip_counterexample:
  "cmyk_round_trip (149, 148, 0) = Inr (148, 146, 0) \<and> \<not> close_to 1 (149, 148, 0) (148, 146, 0)"
  by code_simp

text \<open>
  Claim C2, amended. For every RGB triple with each channel in [0,255], converting it to
  CMYK with \<^verbatim>\<open>_rgb_to_cmyk\<close> and back with the \<^verbatim>\<open>cmyk\<close> command succeeds and
  reproduces the triple within 2 on every channel (2 is reached, see above); and
  \<^verbatim>\<open>_rgb_to_cmyk\<close> of (0, 0, 0) is exactly (0, 0, 0, 100).
\<close>

theorem cmyk_round_trip_within_2:
  assumes "0 \<le> r" "r \<le> 255" "0 \<le> g" "g \<le> 255" "0 \<le> b" "b \<le> 255"
  shows "(\<exists>rgb'. cmyk_round_trip (r, g, b) = Inr rgb' \<and> close_to 2 (r, g, b) rgb')
       \<and> rgb_to_cmyk (0, 0, 0) = Inr (0, 0, 0, 100)"
proof -
  from cmyk_round_trip_close [OF assms] obtain r' g' b'
    where "cmyk_round_trip (r, g, b) = Inr (r', g', b')"
      and "\<bar>r - r'\<bar> \<le> 2" "\<bar>g - g'\<bar> \<le> 2" "\<bar>b - b'\<bar> \<le> 2"
    by blast
  then have "cmyk_round_trip (r, g, b) = Inr (r', g', b') \<and> close_to 2 (r, g, b) (r', g', b')"
    by (simp add: close_to_def)
  then have "\<exists>rgb'. cmyk_round_trip (r, g, b) = Inr rgb' \<and> close_to 2 (r, g, b) rgb'" ..
  with rgb_to_cmyk_black show ?thesis by simp
qed

theorem cmyk_round_trip_within_2_witness:
  "(\<exists>rgb'. cmyk_round_trip (149, 148, 0) = Inr rgb' \<and> close_to 2 (149, 148, 0) rgb')
   \<and> (\<exists>rgb'. cmyk_round_trip (0, 0, 0) = Inr rgb' \<and> close_to 2 (0, 0, 0) rgb')"
  using cmyk_round_trip_within_2 [of 149 148 0] cmyk_round_trip_within_2 [of 0 0 0]
  by simp

end
